theory Spec2Isabelle
  imports Main "HOL-Library.AList" "HOL-Library.Char_ord" "HOL-Library.List_Lexorder"
begin

section \<open>Python strings and POSIX paths used by \<open>blade/target.py\<close>\<close>

text \<open>
  Strings are \<open>char list\<close>. The helpers below are the \<open>str\<close> methods and the
  \<open>os.path\<close> functions (POSIX flavour) that \<open>target.py\<close> calls.
\<close>

definition startswith :: "string \<Rightarrow> string \<Rightarrow> bool" where
  "startswith s p = (take (length p) s = p)"

definition endswith :: "string \<Rightarrow> string \<Rightarrow> bool" where
  "endswith s p = (length p \<le> length s \<and> drop (length s - length p) s = p)"

text \<open>\<open>p in s\<close> for strings: \<open>p\<close> occurs as a contiguous substring of \<open>s\<close>.\<close>

fun contains_str :: "string \<Rightarrow> string \<Rightarrow> bool" where
  "contains_str p [] = (p = [])"
| "contains_str p (c # cs) = (startswith (c # cs) p \<or> contains_str p cs)"

text \<open>\<open>s.rsplit(c, 1)\<close> for a string that contains \<open>c\<close>: cut at the last \<open>c\<close>.\<close>

definition rsplit1 :: "char \<Rightarrow> string \<Rightarrow> string \<times> string" where
  "rsplit1 c s =
     (rev (drop 1 (dropWhile (\<lambda>x. x \<noteq> c) (rev s))), rev (takeWhile (\<lambda>x. x \<noteq> c) (rev s)))"

text \<open>\<open>s.split(c)\<close>: the pieces between the occurrences of \<open>c\<close> (never an empty list).\<close>

fun split_on :: "char \<Rightarrow> string \<Rightarrow> string list" where
  "split_on c [] = [[]]"
| "split_on c (x # xs) =
     (if x = c then [] # split_on c xs
      else (case split_on c xs of [] \<Rightarrow> [[x]] | w # ws \<Rightarrow> (x # w) # ws))"

text \<open>\<open>sep.join(xs)\<close>.\<close>

fun join_with :: "string \<Rightarrow> string list \<Rightarrow> string" where
  "join_with sep [] = []"
| "join_with sep [x] = x"
| "join_with sep (x # y # ys) = x @ sep @ join_with sep (y # ys)"

text \<open>\<open>posixpath.join(a, b)\<close> with two arguments.\<close>

definition path_join :: "string \<Rightarrow> string \<Rightarrow> string" where
  "path_join a b =
     (if startswith b ''/'' then b
      else if a = [] \<or> endswith a ''/'' then a @ b
      else a @ ''/'' @ b)"

text \<open>
  \<open>posixpath.normpath\<close>. \<open>normpath_step\<close> is the body of its loop over the components:
  empty and \<open>.\<close> components are skipped; \<open>..\<close> is kept at the front of a relative
  path or after another \<open>..\<close>, pops the previous component otherwise, and is dropped at
  the root of an absolute path.
\<close>

definition normpath_step :: "nat \<Rightarrow> string list \<Rightarrow> string \<Rightarrow> string list" where
  "normpath_step initial_slashes new_comps cmp =
     (if cmp = [] \<or> cmp = ''.'' then new_comps
      else if cmp \<noteq> ''..'' \<or> (initial_slashes = 0 \<and> new_comps = [])
              \<or> (new_comps \<noteq> [] \<and> last new_comps = ''..'')
        then new_comps @ [cmp]
      else if new_comps \<noteq> [] then butlast new_comps
      else new_comps)"

definition initial_slashes_of :: "string \<Rightarrow> nat" where
  "initial_slashes_of p =
     (if startswith p ''/''
      then (if startswith p ''//'' \<and> \<not> startswith p ''///'' then 2 else 1)
      else 0)"

definition normpath :: "string \<Rightarrow> string" where
  "normpath p =
     (if p = [] then ''.''
      else
        let initial_slashes = initial_slashes_of p;
            comps = foldl (normpath_step initial_slashes) [] (split_on CHR ''/'' p);
            joined = join_with ''/'' comps;
            res = (if initial_slashes \<noteq> 0
                   then replicate initial_slashes CHR ''/'' @ joined else joined)
        in if res = [] then ''.'' else res)"

section \<open>Errors\<close>

text \<open>
  \<open>console.fatal\<close> ends the process and \<open>raise\<close> unwinds the caller; both are the
  \<open>Inl\<close> branch of a result. \<open>Fatal\<close> carries the message given to
  \<open>console.fatal\<close>; the \<open>self.fatal\<close> calls of \<open>Target\<close> are told apart by
  constructor, with the offending value as argument.
\<close>

datatype error =
    Fatal string
  | InvalidTargetName
  | UnrecognizedOptions
  | DuplicateSourcePaths "string list"
  | InvalidSourcePath string
  | InvalidFormat string
  | MissingComma string
  | InvalidTargetLibFormat string
  | WrongFormat string
  | DotDotInPath
  | IndexError
  | KeyError "string \<times> string"
  | ValueError
  | AssertionError
  | DictKeyError string
  | TypeError
  | AttributeError
  | NotImplementedError string

section \<open>Target key normalizer\<close>

text \<open>The part of \<open>_normalize_one\<close> after the prefix has been dealt with.\<close>

definition canonical_form :: "string \<Rightarrow> string" where
  "canonical_form t =
     (let (p, n) =
        (if CHR '':'' \<in> set t then rsplit1 CHR '':'' t
         else if endswith t ''...'' then (take (length t - 3) t, ''...'')
         else (t, ''*''))
      in normpath p @ '':'' @ n)"

definition normalize_one :: "string \<Rightarrow> string \<Rightarrow> error + string" where
  "normalize_one t working_dir =
     (if startswith t ''//'' then Inr (canonical_form (drop 2 t))
      else if startswith t ''/''
        then Inl (Fatal (''Invalid target \"'' @ t @ ''\" starting from root path.''))
      else Inr (canonical_form (if working_dir \<noteq> ''.'' then path_join working_dir t else t)))"

text \<open>\<open>normalize\<close>: the list comprehension stops at the first fatal reference.\<close>

fun normalize_targets :: "string list \<Rightarrow> string \<Rightarrow> error + string list" where
  "normalize_targets [] working_dir = Inr []"
| "normalize_targets (t # ts) working_dir =
     (case normalize_one t working_dir of
        Inl e \<Rightarrow> Inl e
      | Inr c \<Rightarrow> (case normalize_targets ts working_dir of Inl e \<Rightarrow> Inl e | Inr cs \<Rightarrow> Inr (c # cs)))"

section \<open>Targets, the target database and the source ownership registry\<close>

type_synonym key = "string \<times> string"

text \<open>Python values stored in a target's \<open>data\<close> dictionary and hashed by \<open>rule_hash\<close>.\<close>

datatype pyval =
    PNone
  | PBool bool
  | PInt int
  | PStr string
  | PList "pyval list"
  | PDict "(string \<times> pyval) list"

text \<open>\<open>self.visibility\<close>: the string \<open>'PUBLIC'\<close> or a list of keys.\<close>

datatype visibility_spec = PUBLIC | VisibleTo "key list"

text \<open>
  The attributes of a \<open>Target\<close> object. A dictionary is an association list with
  distinct keys, updated with \<open>AList.update\<close> as \<open>d[k] = v\<close> does.
  \<open>allow_duplicate_source\<close> is what the object's \<open>_allow_duplicate_source()\<close>
  returns (\<open>False\<close> in \<open>Target\<close>, overridden by subclasses); \<open>build_rules\<close> and
  \<open>rule_hash_memo\<close> are the private \<open>__build_rules\<close> and \<open>__rule_hash\<close>.
\<close>

record target =
  key :: key
  fullname :: string
  name :: string
  path :: string
  type :: string
  srcs :: "string list"
  deps :: "key list"
  expanded_deps :: "key list"
  visibility :: visibility_spec
  data :: "(string \<times> pyval) list"
  allow_duplicate_source :: bool
  build_rules :: "string list option"
  rule_hash_memo :: "string option"

text \<open>The items \<open>config.get_item('global_config', _)\<close> that \<open>target.py\<close> reads.\<close>

record config =
  test_timeout :: pyval
  duplicated_source_action :: string

text \<open>
  The process-wide state: the build manager's target database, the class attribute
  \<open>Target.__src_target_map\<close>, and the messages given to \<open>console.warning\<close>.
\<close>

record world =
  target_database :: "key \<rightharpoonup> target"
  src_target_map :: "string \<rightharpoonup> (string \<times> bool)"
  warnings :: "string list"

subsection \<open>Source checks: \<open>_check_srcs\<close>\<close>

text \<open>The first loop of \<open>_check_srcs\<close>: the paths seen before, in order of appearance.\<close>

fun collect_dups :: "string list \<Rightarrow> string set \<Rightarrow> string list \<Rightarrow> string list" where
  "collect_dups [] srcset dups = dups"
| "collect_dups (s # ss) srcset dups =
     (if s \<in> srcset then collect_dups ss srcset (dups @ [s])
      else collect_dups ss (insert s srcset) dups)"

definition conflict_message :: "string \<Rightarrow> string \<Rightarrow> string \<Rightarrow> string" where
  "conflict_message s existed_name target_name =
     ''Source file '' @ s @ '' belongs to {'' @ existed_name @ '', '' @ target_name @ ''}''"

text \<open>
  The body of the second loop of \<open>_check_srcs\<close> for one source \<open>s\<close> of the target
  \<open>tgt = (fullname, allows duplicates)\<close> declared in directory \<open>dir\<close>.
\<close>

definition check_src :: "string \<Rightarrow> string \<Rightarrow> string \<times> bool \<Rightarrow> string \<Rightarrow> world \<Rightarrow> error + world" where
  "check_src action dir tgt s w =
     (if contains_str ''..'' s \<or> startswith s ''/'' then Inl (InvalidSourcePath s)
      else
        let src = normpath (path_join dir s) in
        (case src_target_map w src of
           None \<Rightarrow> Inr (w\<lparr>src_target_map := (src_target_map w)(src \<mapsto> tgt)\<rparr>)
         | Some target_existed \<Rightarrow>
             if target_existed \<noteq> tgt then
               (if snd target_existed
                  then Inr (w\<lparr>src_target_map := (src_target_map w)(src \<mapsto> tgt)\<rparr>)
                else if snd tgt then Inr w
                else
                  let message = conflict_message s (fst target_existed) (fst tgt) in
                  if action = ''error'' then Inl (Fatal message)
                  else if action = ''warning'' then Inr (w\<lparr>warnings := warnings w @ [message]\<rparr>)
                  else Inr w)
             else Inr w))"

fun check_src_loop :: "string \<Rightarrow> string \<Rightarrow> string \<times> bool \<Rightarrow> string list \<Rightarrow> world \<Rightarrow> error + world" where
  "check_src_loop action dir tgt [] w = Inr w"
| "check_src_loop action dir tgt (s # ss) w =
     (case check_src action dir tgt s w of
        Inl e \<Rightarrow> Inl e
      | Inr w' \<Rightarrow> check_src_loop action dir tgt ss w')"

definition check_srcs :: "config \<Rightarrow> target \<Rightarrow> world \<Rightarrow> error + world" where
  "check_srcs cfg self w =
     (let dups = collect_dups (srcs self) {} [] in
      if dups \<noteq> [] then Inl (DuplicateSourcePaths dups)
      else check_src_loop (duplicated_source_action cfg) (path self)
             (fullname self, allow_duplicate_source self) (srcs self) w)"

subsection \<open>Dependency resolution\<close>

text \<open>\<open>_check_name\<close> and \<open>_check_kwargs\<close>.\<close>

definition check_name :: "string \<Rightarrow> error + unit" where
  "check_name n = (if CHR ''/'' \<in> set n then Inl InvalidTargetName else Inr ())"

definition check_kwargs :: "(string \<times> pyval) list \<Rightarrow> error + unit" where
  "check_kwargs kwargs = (if kwargs \<noteq> [] then Inl UnrecognizedOptions else Inr ())"

text \<open>
  The attributes \<open>Target.__init__\<close> sets before it runs its checks, for a target
  \<open>n\<close> of kind \<open>ty\<close> declared in \<open>current_source_path\<close>.
\<close>

definition fresh_target :: "config \<Rightarrow> string \<Rightarrow> bool \<Rightarrow> string \<Rightarrow> string \<Rightarrow> string list \<Rightarrow> target" where
  "fresh_target cfg current_source_path allow_dup n ty ss =
     \<lparr>key = (current_source_path, n),
      fullname = current_source_path @ '':'' @ n,
      name = n,
      path = current_source_path,
      type = ty,
      srcs = ss,
      deps = [],
      expanded_deps = [],
      visibility = PUBLIC,
      data = [(''test_timeout'', test_timeout cfg), (''targets'', PDict []),
              (''default_target'', PStr [])],
      allow_duplicate_source = allow_dup,
      build_rules = None,
      rule_hash_memo = None\<rparr>"

text \<open>
  \<open>SystemLibrary(name)\<close>: \<open>Target.__init__\<close> with the name after the leading
  \<open>#\<close>, kind \<open>system_library\<close>, no sources, no dependencies, visibility
  \<open>['PUBLIC']\<close> and no further options, then key, full name and path set to the
  \<open>#\<close> directory. With these arguments the only check of \<open>__init__\<close> that can
  fail is \<open>_check_name\<close>, and nothing but \<open>data['generated_hdrs']\<close> is added.
\<close>

definition system_library :: "config \<Rightarrow> string \<Rightarrow> string \<Rightarrow> error + target" where
  "system_library cfg current_source_path nm =
     (let n = drop 1 nm in
      case check_name n of
        Inl e \<Rightarrow> Inl e
      | Inr _ \<Rightarrow>
          let t = fresh_target cfg current_source_path False n ''system_library'' [] in
          Inr (t\<lparr>data := AList.update ''generated_hdrs'' (PList []) (data t),
                 key := (''#'', n),
                 fullname := ''#:'' @ n,
                 path := ''#''\<rparr>))"

text \<open>
  Modelled from the spec: \<open>build_manager.register_target\<close> is not part of the sources
  given; a system library referenced for the first time is registered in the target
  database under its key.
\<close>

definition register_target :: "target \<Rightarrow> world \<Rightarrow> world" where
  "register_target t w = w\<lparr>target_database := (target_database w)(key t \<mapsto> t)\<rparr>"

text \<open>\<open>_add_system_library\<close>; \<open>csp\<close> is the build manager's current source path.\<close>

definition add_system_library :: "config \<Rightarrow> string \<Rightarrow> key \<Rightarrow> string \<Rightarrow> world \<Rightarrow> error + world" where
  "add_system_library cfg csp k nm w =
     (case target_database w k of
        Some _ \<Rightarrow> Inr w
      | None \<Rightarrow>
          (case system_library cfg csp nm of
             Inl e \<Rightarrow> Inl e
           | Inr lib \<Rightarrow> Inr (register_target lib w)))"

text \<open>\<open>_unify_dep\<close>; \<open>dep[0]\<close> raises on the empty string.\<close>

definition unify_dep :: "config \<Rightarrow> string \<Rightarrow> target \<Rightarrow> string \<Rightarrow> world \<Rightarrow> error + (key \<times> world)" where
  "unify_dep cfg csp self dep w =
     (case dep of
        [] \<Rightarrow> Inl IndexError
      | c # rest \<Rightarrow>
          if c = CHR '':'' then Inr ((normpath (path self), rest), w)
          else if startswith dep ''//'' then
            (if CHR '':'' \<notin> set dep then Inl (WrongFormat (fullname self))
             else let (p, lib) = rsplit1 CHR '':'' (drop 2 dep) in Inr ((normpath p, lib), w))
          else if startswith dep ''#'' then
            (case add_system_library cfg csp (''#'', rest) dep w of
               Inl e \<Rightarrow> Inl e
             | Inr w' \<Rightarrow> Inr ((''#'', rest), w'))
          else
            (if CHR '':'' \<notin> set dep then Inl (WrongFormat (fullname self))
             else let (p, lib) = rsplit1 CHR '':'' dep in
               if contains_str ''..'' p then Inl DotDotInPath
               else Inr ((normpath (path self @ ''/'' @ p), lib), w)))"

text \<open>
  The two appends shared by \<open>_init_target_deps\<close> and
  \<open>_add_location_reference_target\<close>, and the single one of \<open>_add_hardcode_library\<close>.
\<close>

definition append_expanded_dep :: "key \<Rightarrow> target \<Rightarrow> target" where
  "append_expanded_dep dkey self =
     (if dkey \<notin> set (expanded_deps self)
      then self\<lparr>expanded_deps := expanded_deps self @ [dkey]\<rparr> else self)"

definition append_dep :: "key \<Rightarrow> target \<Rightarrow> target" where
  "append_dep dkey self =
     (if dkey \<notin> set (deps self) then self\<lparr>deps := deps self @ [dkey]\<rparr> else self)"

fun init_target_deps :: "config \<Rightarrow> string \<Rightarrow> string list \<Rightarrow> target \<Rightarrow> world \<Rightarrow> error + (target \<times> world)" where
  "init_target_deps cfg csp [] self w = Inr (self, w)"
| "init_target_deps cfg csp (d # ds) self w =
     (case unify_dep cfg csp self d w of
        Inl e \<Rightarrow> Inl e
      | Inr (dkey, w') \<Rightarrow>
          init_target_deps cfg csp ds (append_dep dkey (append_expanded_dep dkey self)) w')"

text \<open>\<open>_check_format\<close> and \<open>_check_deps\<close>.\<close>

definition check_format :: "string \<Rightarrow> error + unit" where
  "check_format t =
     (if \<not> (startswith t '':'' \<or> startswith t ''#'' \<or> startswith t ''//'' \<or> startswith t ''./'')
        then Inl (InvalidFormat t)
      else if count_list t CHR '':'' > 1 then Inl (MissingComma t)
      else Inr ())"

fun check_deps :: "string list \<Rightarrow> error + unit" where
  "check_deps [] = Inr ()"
| "check_deps (d # ds) = (case check_format d of Inl e \<Rightarrow> Inl e | Inr _ \<Rightarrow> check_deps ds)"

text \<open>
  \<open>_init_visibility\<close>; its argument is \<open>None\<close> or the list \<open>var_to_list\<close> makes of
  the declared value.
\<close>

fun visibility_loop :: "config \<Rightarrow> string \<Rightarrow> string list \<Rightarrow> key list \<Rightarrow> target \<Rightarrow> world \<Rightarrow> error + (key list \<times> world)" where
  "visibility_loop cfg csp [] vis self w = Inr (vis, w)"
| "visibility_loop cfg csp (v # vs) vis self w =
     (case check_format v of
        Inl e \<Rightarrow> Inl e
      | Inr _ \<Rightarrow>
          (case unify_dep cfg csp self v w of
             Inl e \<Rightarrow> Inl e
           | Inr (k, w') \<Rightarrow>
               visibility_loop cfg csp vs (if k \<notin> set vis then vis @ [k] else vis) self w'))"

definition init_visibility :: "config \<Rightarrow> string \<Rightarrow> string list option \<Rightarrow> target \<Rightarrow> world \<Rightarrow> error + (target \<times> world)" where
  "init_visibility cfg csp vis self w =
     (case vis of
        None \<Rightarrow> Inr (self, w)
      | Some vs \<Rightarrow>
          if vs = [''PUBLIC''] then Inr (self, w)
          else (case visibility_loop cfg csp vs [] self w of
                  Inl e \<Rightarrow> Inl e
                | Inr (ks, w') \<Rightarrow> Inr (self\<lparr>visibility := VisibleTo ks\<rparr>, w')))"

text \<open>
  \<open>Target.__init__\<close>: the checks in the order of the source, each on the state the
  previous one left.
\<close>

definition init_target :: "config \<Rightarrow> string \<Rightarrow> bool \<Rightarrow> string \<Rightarrow> string \<Rightarrow> string list \<Rightarrow> string list
    \<Rightarrow> string list option \<Rightarrow> (string \<times> pyval) list \<Rightarrow> world \<Rightarrow> error + (target \<times> world)" where
  "init_target cfg csp allow_dup n ty ss ds vis kwargs w =
     (let self = fresh_target cfg csp allow_dup n ty ss in
      (case check_name n of Inl e \<Rightarrow> Inl e | Inr _ \<Rightarrow>
      (case check_kwargs kwargs of Inl e \<Rightarrow> Inl e | Inr _ \<Rightarrow>
      (case check_srcs cfg self w of Inl e \<Rightarrow> Inl e | Inr w1 \<Rightarrow>
      (case check_deps ds of Inl e \<Rightarrow> Inl e | Inr _ \<Rightarrow>
      (case init_target_deps cfg csp ds self w1 of Inl e \<Rightarrow> Inl e | Inr (self2, w2) \<Rightarrow>
      (case init_visibility cfg csp vis self2 w2 of Inl e \<Rightarrow> Inl e | Inr (self3, w3) \<Rightarrow>
        Inr (self3\<lparr>data := AList.update ''generated_hdrs'' (PList []) (data self3)\<rparr>,
             w3))))))))"

subsection \<open>Location references\<close>

text \<open>
  The character classes of Python 3's \<open>re\<close> for a \<open>str\<close> pattern, on the code
  points below 256 that a \<open>char\<close> holds: \<open>\s\<close> is what \<open>str.isspace\<close> accepts
  (the ASCII whitespace, the separators \<open>0x1C\<close> to \<open>0x1F\<close>, the next-line control
  \<open>0x85\<close> and the no-break space \<open>0xA0\<close>), \<open>\w\<close> is the underscore or what
  \<open>str.isalnum\<close> accepts (the ASCII letters and digits, and the letters and numeric
  characters of Latin-1).
\<close>

definition is_space :: "char \<Rightarrow> bool" where
  "is_space c = (c \<in> set [CHR 0x09, CHR 0x0A, CHR 0x0B, CHR 0x0C, CHR 0x0D,
                            CHR 0x1C, CHR 0x1D, CHR 0x1E, CHR 0x1F, CHR 0x20,
                            CHR 0x85, CHR 0xA0])"

definition is_word :: "char \<Rightarrow> bool" where
  "is_word c = (c \<in> set (''abcdefghijklmnopqrstuvwxyz'' @ ''ABCDEFGHIJKLMNOPQRSTUVWXYZ''
                           @ ''0123456789_'')
                \<or> (of_char c :: nat) \<in> set ([0xAA, 0xB2, 0xB3, 0xB5, 0xB9, 0xBA, 0xBC, 0xBD, 0xBE]
                      @ [0xC0..<0xD7] @ [0xD8..<0xF7] @ [0xF8..<0x100]))"

text \<open>\<open>s.strip()\<close>.\<close>

definition strip :: "string \<Rightarrow> string" where
  "strip s = rev (dropWhile is_space (rev (dropWhile is_space s)))"

text \<open>
  The fragment of regular expressions that \<open>LOCATION_RE\<close> is written in: single
  characters and classes, their greedy repetitions, concatenation, an optional part and
  numbered capture groups.
\<close>

datatype atom = Lit char | Space | NonSpace | Word

datatype regex =
    Eps
  | Chr atom
  | Star atom
  | Plus atom
  | Cat regex regex
  | Opt regex
  | Grp nat regex

fun atom_ok :: "atom \<Rightarrow> char \<Rightarrow> bool" where
  "atom_ok (Lit a) c = (c = a)"
| "atom_ok Space c = is_space c"
| "atom_ok NonSpace c = (\<not> is_space c)"
| "atom_ok Word c = is_word c"

text \<open>
  A backtracking matcher in continuation-passing style: \<open>k\<close> is what remains to be
  matched after the expression at hand. A greedy repetition tries the longest run first
  and gives characters back one at a time while the continuation fails.
\<close>

fun star_match :: "atom \<Rightarrow> string \<Rightarrow> (string \<Rightarrow> 'r option) \<Rightarrow> 'r option" where
  "star_match a [] k = k []"
| "star_match a (c # cs) k =
     (if atom_ok a c
      then (case star_match a cs k of Some r \<Rightarrow> Some r | None \<Rightarrow> k (c # cs))
      else k (c # cs))"

fun rmatch :: "regex \<Rightarrow> string \<Rightarrow> (nat \<rightharpoonup> string)
    \<Rightarrow> (string \<Rightarrow> (nat \<rightharpoonup> string) \<Rightarrow> 'r option) \<Rightarrow> 'r option" where
  "rmatch Eps s caps k = k s caps"
| "rmatch (Chr a) s caps k =
     (case s of [] \<Rightarrow> None | c # cs \<Rightarrow> if atom_ok a c then k cs caps else None)"
| "rmatch (Star a) s caps k = star_match a s (\<lambda>rest. k rest caps)"
| "rmatch (Plus a) s caps k =
     (case s of
        [] \<Rightarrow> None
      | c # cs \<Rightarrow> if atom_ok a c then star_match a cs (\<lambda>rest. k rest caps) else None)"
| "rmatch (Cat r1 r2) s caps k = rmatch r1 s caps (\<lambda>rest caps'. rmatch r2 rest caps' k)"
| "rmatch (Opt r) s caps k =
     (case rmatch r s caps k of Some x \<Rightarrow> Some x | None \<Rightarrow> k s caps)"
| "rmatch (Grp n r) s caps k =
     rmatch r s caps (\<lambda>rest caps'. k rest (caps'(n \<mapsto> take (length s - length rest) s)))"

text \<open>\<open>pattern.search(s)\<close>: the leftmost position at which the pattern matches.\<close>

fun search :: "regex \<Rightarrow> string \<Rightarrow> (nat \<rightharpoonup> string) option" where
  "search r [] = rmatch r [] Map.empty (\<lambda>rest caps. Some caps)"
| "search r (c # cs) =
     (case rmatch r (c # cs) Map.empty (\<lambda>rest caps. Some caps) of
        Some caps \<Rightarrow> Some caps
      | None \<Rightarrow> search r cs)"

definition literal :: "string \<Rightarrow> regex" where
  "literal s = foldr (\<lambda>c r. Cat (Chr (Lit c)) r) s Eps"

text \<open>\<open>LOCATION_RE = re.compile(r'\$\(location\s+(\S*:\S+)(\s+\w*)?\)')\<close>.\<close>

definition LOCATION_RE :: regex where
  "LOCATION_RE =
     Cat (literal ''$(location'')
    (Cat (Plus Space)
    (Cat (Grp 1 (Cat (Star NonSpace) (Cat (Chr (Lit CHR '':'')) (Plus NonSpace))))
    (Cat (Opt (Grp 2 (Cat (Plus Space) (Star Word))))
         (Chr (Lit CHR '')'')))))"

text \<open>
  \<open>LOCATION_RE.search(s)\<close> followed by \<open>m.groups()\<close>: the captured reference and
  the captured tag, \<open>None\<close> for a tag group that took no part in the match.
\<close>

definition location_search :: "string \<Rightarrow> (string \<times> string option) option" where
  "location_search s =
     (case search LOCATION_RE s of
        None \<Rightarrow> None
      | Some caps \<Rightarrow> (case caps 1 of None \<Rightarrow> None | Some ref \<Rightarrow> Some (ref, caps 2)))"

text \<open>
  \<open>_add_location_reference_target\<close>; \<open>m\<close> is the groups of the match object, or
  \<open>None\<close> when the search found nothing (the method then returns \<open>None\<close>).
\<close>

definition add_location_reference_target ::
    "config \<Rightarrow> string \<Rightarrow> (string \<times> string option) option \<Rightarrow> target \<Rightarrow> world
      \<Rightarrow> error + ((key \<times> string) option \<times> target \<times> world)" where
  "add_location_reference_target cfg csp m self w =
     (case m of
        None \<Rightarrow> Inr (None, self, w)
      | Some (k, ty) \<Rightarrow>
          let ty1 = (case ty of None \<Rightarrow> [] | Some t \<Rightarrow> if t = [] then [] else t);
              ty2 = strip ty1
          in (case unify_dep cfg csp self k w of
                Inl e \<Rightarrow> Inl e
              | Inr (dkey, w') \<Rightarrow>
                  Inr (Some (dkey, ty2), append_dep dkey (append_expanded_dep dkey self), w')))"

subsection \<open>Hard-coded libraries\<close>

text \<open>\<open>_convert_string_to_target_helper\<close>; unpacking \<open>split(':')\<close> into two names
  raises unless there is exactly one colon.\<close>

definition convert_string_to_target_helper :: "string \<Rightarrow> error + key" where
  "convert_string_to_target_helper target_string =
     (if target_string \<noteq> [] \<and> startswith target_string ''#''
        then Inr (''#'', drop 1 target_string)
      else if target_string \<noteq> [] \<and> CHR '':'' \<in> set target_string then
        (case split_on CHR '':'' target_string of
           [p, n] \<Rightarrow>
             let p1 = strip p;
                 p2 = (if startswith p1 ''//'' then drop 2 p1 else p1)
             in Inr (p2, strip n)
         | _ \<Rightarrow> Inl ValueError)
      else Inl (InvalidTargetLibFormat target_string))"

fun add_hardcode_library :: "config \<Rightarrow> string \<Rightarrow> string list \<Rightarrow> target \<Rightarrow> world \<Rightarrow> error + (target \<times> world)" where
  "add_hardcode_library cfg csp [] self w = Inr (self, w)"
| "add_hardcode_library cfg csp (dep # rest) self w =
     (case convert_string_to_target_helper dep of
        Inl e \<Rightarrow> Inl e
      | Inr dkey \<Rightarrow>
          (case (if fst dkey = ''#'' then add_system_library cfg csp dkey dep w else Inr w) of
             Inl e \<Rightarrow> Inl e
           | Inr w' \<Rightarrow> add_hardcode_library cfg csp rest (append_expanded_dep dkey self) w'))"

subsection \<open>Rule fingerprint: \<open>rule_hash\<close>\<close>

text \<open>
  What \<open>rule_hash\<close> takes from outside \<open>target.py\<close>: Python's \<open>str\<close> of the
  sorted item list, \<open>blade_util.md5sum\<close>, and the method \<open>_rule_hash_factors\<close>
  that a subclass may override.
\<close>

record hash_env =
  str_of :: "(string \<times> pyval) list \<Rightarrow> string"
  md5sum :: "string \<Rightarrow> string"
  rule_hash_factors :: "target \<Rightarrow> (string \<times> pyval) list"

text \<open>The default \<open>_rule_hash_factors\<close> of \<open>Target\<close> returns the \<open>data\<close> member.\<close>

definition default_rule_hash_factors :: "target \<Rightarrow> (string \<times> pyval) list" where
  "default_rule_hash_factors self = data self"

text \<open>\<open>d.update(e)\<close>: the items of \<open>e\<close> are stored into \<open>d\<close> one after the other.\<close>

definition dict_update :: "(string \<times> pyval) list \<Rightarrow> (string \<times> pyval) list \<Rightarrow> (string \<times> pyval) list" where
  "dict_update d e = foldl (\<lambda>acc (k, v). AList.update k v acc) d e"

text \<open>
  The dictionary \<open>factors\<close> of \<open>rule_hash\<close>, given the hashes of the dependencies,
  and \<open>sorted(factors.items())\<close>; the keys of a dictionary differ, so the items are
  ordered by key.
\<close>

definition factors_of :: "hash_env \<Rightarrow> target \<Rightarrow> string list \<Rightarrow> (string \<times> pyval) list" where
  "factors_of env self dep_hashes =
     dict_update
       (AList.update ''deps'' (PList (map PStr dep_hashes))
          [(''type'', PStr (type self)), (''name'', PStr (name self)),
           (''srcs'', PList (map PStr (srcs self)))])
       (rule_hash_factors env self)"

definition sorted_items :: "(string \<times> pyval) list \<Rightarrow> (string \<times> pyval) list" where
  "sorted_items d = sort_key fst d"

text \<open>
  The last three statements of the computation: the sorted items are turned into a
  string, the assertion guards against objects printed by address, and the string is
  hashed.
\<close>

definition digest_of :: "hash_env \<Rightarrow> target \<Rightarrow> string list \<Rightarrow> error + string" where
  "digest_of env self dep_hashes =
     (let factors_str = str_of env (sorted_items (factors_of env self dep_hashes)) in
      if contains_str '' object at 0x'' factors_str then Inl AssertionError
      else Inr (md5sum env factors_str))"

text \<open>
  The loop over \<open>self.deps\<close>: each key is looked up in the target database and hashed
  by \<open>hash_one\<close>, which is the recursive call.
\<close>

fun dep_rule_hashes :: "(key \<Rightarrow> (key \<rightharpoonup> target) \<Rightarrow> (error + string \<times> (key \<rightharpoonup> target)) option)
    \<Rightarrow> key list \<Rightarrow> string list \<Rightarrow> (key \<rightharpoonup> target)
    \<Rightarrow> (error + string list \<times> (key \<rightharpoonup> target)) option" where
  "dep_rule_hashes hash_one [] acc db = Some (Inr (acc, db))"
| "dep_rule_hashes hash_one (dkey # dkeys) acc db =
     (case hash_one dkey db of
        None \<Rightarrow> None
      | Some (Inl e) \<Rightarrow> Some (Inl e)
      | Some (Inr (h, db')) \<Rightarrow> dep_rule_hashes hash_one dkeys (acc @ [h]) db')"

text \<open>
  \<open>rule_hash\<close> of the target stored under key \<open>k\<close>. Target objects are shared
  through the target database, so the database is the store and a memoized hash is
  written back into it. The recursion follows the dependency graph and has no bound of
  its own; the first argument bounds its depth, and \<open>None\<close> means that the bound was
  reached. A key that is not in the database raises \<open>KeyError\<close>.
\<close>

fun rule_hash :: "hash_env \<Rightarrow> nat \<Rightarrow> key \<Rightarrow> (key \<rightharpoonup> target)
    \<Rightarrow> (error + string \<times> (key \<rightharpoonup> target)) option" where
  "rule_hash env 0 k db = None"
| "rule_hash env (Suc n) k db =
     (case db k of
        None \<Rightarrow> Some (Inl (KeyError k))
      | Some self \<Rightarrow>
          (case rule_hash_memo self of
             Some h \<Rightarrow> Some (Inr (h, db))
           | None \<Rightarrow>
               (case dep_rule_hashes (rule_hash env n) (deps self) [] db of
                  None \<Rightarrow> None
                | Some (Inl e) \<Rightarrow> Some (Inl e)
                | Some (Inr (hs, db')) \<Rightarrow>
                    (case digest_of env self hs of
                       Inl e \<Rightarrow> Some (Inl e)
                     | Inr h \<Rightarrow> Some (Inr (h, db'(k \<mapsto> self\<lparr>rule_hash_memo := Some h\<rparr>)))))))"

text \<open>
  The target database with the \<open>expanded_deps\<close> of the target under each key \<open>x\<close>
  replaced by \<open>g x\<close>.
\<close>

definition with_expanded_deps :: "(key \<Rightarrow> key list) \<Rightarrow> (key \<rightharpoonup> target) \<Rightarrow> (key \<rightharpoonup> target)" where
  "with_expanded_deps g db = (\<lambda>x. map_option (\<lambda>t. t\<lparr>expanded_deps := g x\<rparr>) (db x))"

subsection \<open>Rule emission: \<open>get_rules\<close>\<close>

text \<open>\<open>_write_rule\<close> appends to the private buffer, which must have been created.\<close>

definition write_rule :: "string \<Rightarrow> target \<Rightarrow> error + target" where
  "write_rule rule self =
     (case build_rules self of
        None \<Rightarrow> Inl AttributeError
      | Some buf \<Rightarrow> Inr (self\<lparr>build_rules := Some (buf @ [rule @ [CHR 0x0A]])\<rparr>))"

text \<open>
  \<open>get_rules\<close>. \<open>ninja_rules\<close> is the rule-generation method of the target's class; it
  works on the target and on whatever else it can reach, the state \<open>'s\<close>. The result is
  the value of \<open>__build_rules\<close> on return.
\<close>

definition get_rules :: "(target \<Rightarrow> 's \<Rightarrow> error + target \<times> 's) \<Rightarrow> target \<Rightarrow> 's
    \<Rightarrow> error + (string list option \<times> target \<times> 's)" where
  "get_rules ninja_rules self st =
     (case build_rules self of
        None \<Rightarrow>
          (case ninja_rules (self\<lparr>build_rules := Some []\<rparr>) st of
             Inl e \<Rightarrow> Inl e
           | Inr (self', st') \<Rightarrow> Inr (build_rules self', self', st'))
      | Some rules \<Rightarrow> Inr (Some rules, self, st))"

text \<open>
  A rule-generation method with a counter of its invocations beside its state, to
  observe how often \<open>get_rules\<close> runs it.
\<close>

definition counted :: "(target \<Rightarrow> 's \<Rightarrow> error + target \<times> 's) \<Rightarrow> target \<Rightarrow> nat \<times> 's
    \<Rightarrow> error + target \<times> (nat \<times> 's)" where
  "counted ninja_rules self st =
     (case ninja_rules self (snd st) of
        Inl e \<Rightarrow> Inl e
      | Inr (self', st') \<Rightarrow> Inr (self', (Suc (fst st), st')))"

text \<open>
  \<open>__build_rules\<close> is private to \<open>Target\<close>: the method of a subclass reaches the
  buffer through \<open>_write_rule\<close> only, which appends to it. So a rule-generation method
  that is given a buffer leaves a buffer.
\<close>

definition keeps_buffer :: "(target \<Rightarrow> 's \<Rightarrow> error + target \<times> 's) \<Rightarrow> bool" where
  "keeps_buffer ninja_rules =
     (\<forall>t s t' s'. ninja_rules t s = Inr (t', s') \<longrightarrow> build_rules t \<noteq> None
        \<longrightarrow> build_rules t' \<noteq> None)"

text \<open>\<open>Target.ninja_rules\<close> and \<open>SystemLibrary.ninja_rules\<close>.\<close>

definition target_ninja_rules :: "target \<Rightarrow> 's \<Rightarrow> error + target \<times> 's" where
  "target_ninja_rules self st = Inl (NotImplementedError (fullname self))"

definition system_library_ninja_rules :: "target \<Rightarrow> 's \<Rightarrow> error + target \<times> 's" where
  "system_library_ninja_rules self st = Inr (self, st)"

text \<open>Python's truth value of a stored value, and \<open>_add_target_file\<close>.\<close>

fun truthy :: "pyval \<Rightarrow> bool" where
  "truthy PNone = False"
| "truthy (PBool b) = b"
| "truthy (PInt i) = (i \<noteq> 0)"
| "truthy (PStr s) = (s \<noteq> [])"
| "truthy (PList xs) = (xs \<noteq> [])"
| "truthy (PDict d) = (d \<noteq> [])"

definition add_target_file :: "string \<Rightarrow> pyval \<Rightarrow> target \<Rightarrow> error + target" where
  "add_target_file label p self =
     (case map_of (data self) ''targets'' of
        None \<Rightarrow> Inl (DictKeyError ''targets'')
      | Some (PDict ts) \<Rightarrow>
          let d1 = AList.update ''targets'' (PDict (AList.update label p ts)) (data self) in
          (case map_of d1 ''default_target'' of
             None \<Rightarrow> Inl (DictKeyError ''default_target'')
           | Some dt \<Rightarrow>
               Inr (self\<lparr>data := (if \<not> truthy dt then AList.update ''default_target'' p d1
                                    else d1)\<rparr>))
      | Some _ \<Rightarrow> Inl TypeError)"

subsection \<open>What an expression matches\<close>

text \<open>
  The strings an expression matches, the strings a group numbered \<open>n\<close> inside it can
  capture, and the captures a match may leave: each is the one before the match or a
  string of its group. \<open>reference_lang\<close> is what the first group of \<open>LOCATION_RE\<close>
  can capture.
\<close>

fun lang :: "regex \<Rightarrow> string set" where
  "lang Eps = {[]}"
| "lang (Chr a) = {[c] | c. atom_ok a c}"
| "lang (Star a) = {w. \<forall>c \<in> set w. atom_ok a c}"
| "lang (Plus a) = {w. w \<noteq> [] \<and> (\<forall>c \<in> set w. atom_ok a c)}"
| "lang (Cat r1 r2) = {u @ v | u v. u \<in> lang r1 \<and> v \<in> lang r2}"
| "lang (Opt r) = insert [] (lang r)"
| "lang (Grp n r) = lang r"

fun group_lang :: "regex \<Rightarrow> nat \<Rightarrow> string set" where
  "group_lang (Cat r1 r2) n = group_lang r1 n \<union> group_lang r2 n"
| "group_lang (Opt r) n = group_lang r n"
| "group_lang (Grp m r) n = (if m = n then lang r else {}) \<union> group_lang r n"
| "group_lang r n = {}"

definition caps_from :: "regex \<Rightarrow> (nat \<rightharpoonup> string) \<Rightarrow> (nat \<rightharpoonup> string) \<Rightarrow> bool" where
  "caps_from r caps caps' = (\<forall>n. caps' n = caps n \<or> (\<exists>u \<in> group_lang r n. caps' n = Some u))"

definition reference_lang :: "string set" where
  "reference_lang =
     {a @ '':'' @ b | a b. b \<noteq> [] \<and> (\<forall>c \<in> set (a @ b). \<not> is_space c)}"

text \<open>
  The tags the second group of \<open>LOCATION_RE\<close> can capture, and the texts the whole
  expression matches: \<open>$(location\<close>, whitespace, a reference, possibly a tag, and the
  closing parenthesis.
\<close>

definition tag_lang :: "string set" where
  "tag_lang = {ws @ wd | ws wd. ws \<noteq> [] \<and> (\<forall>c \<in> set ws. is_space c) \<and> (\<forall>c \<in> set wd. is_word c)}"

definition location_text :: "string set" where
  "location_text =
     {''$(location'' @ ws @ ref @ tag @ '')'' | ws ref tag.
        ws \<noteq> [] \<and> (\<forall>c \<in> set ws. is_space c) \<and> ref \<in> reference_lang
        \<and> (tag = [] \<or> tag \<in> tag_lang)}"

text \<open>The groups that take part in every match of an expression.\<close>

fun binds :: "regex \<Rightarrow> nat \<Rightarrow> bool" where
  "binds (Cat r1 r2) n = (binds r1 n \<or> binds r2 n)"
| "binds (Grp m r) n = (m = n \<or> binds r n)"
| "binds r n = False"

subsection \<open>Normal forms of paths\<close>

text \<open>
  A component that \<open>normpath\<close> keeps as it is, the component lists it produces for a
  relative path (\<open>..\<close> components first, plain ones after), and the path and the name
  \<open>_normalize_one\<close> cuts a reference into.
\<close>

definition plain_comp :: "string \<Rightarrow> bool" where
  "plain_comp c = (c \<noteq> [] \<and> c \<noteq> ''.'' \<and> c \<noteq> ''..'' \<and> CHR ''/'' \<notin> set c)"

definition rel_normal :: "string list \<Rightarrow> bool" where
  "rel_normal cs = (\<exists>k ns. cs = replicate k ''..'' @ ns \<and> (\<forall>c \<in> set ns. plain_comp c))"

definition cut_target :: "string \<Rightarrow> string \<times> string" where
  "cut_target t =
     (if CHR '':'' \<in> set t then rsplit1 CHR '':'' t
      else if endswith t ''...'' then (take (length t - 3) t, ''...'')
      else (t, ''*''))"

section \<open>Concrete inputs\<close>

text \<open>The states and targets at which the theorems below are instantiated.\<close>

definition registry_x :: world where
  "registry_x = \<lparr>target_database = Map.empty,
                  src_target_map = [''a/common.cc'' \<mapsto> (''a:x'', False)],
                  warnings = []\<rparr>"

definition registry_x_dup :: world where
  "registry_x_dup = \<lparr>target_database = Map.empty,
                      src_target_map = [''a/common.cc'' \<mapsto> (''a:x'', True)],
                      warnings = []\<rparr>"

definition cfg0 :: config where
  "cfg0 = \<lparr>test_timeout = PInt 600, duplicated_source_action = ''warning''\<rparr>"

definition world0 :: world where
  "world0 = \<lparr>target_database = Map.empty, src_target_map = Map.empty, warnings = []\<rparr>"

definition app_server :: target where
  "app_server =
     \<lparr>key = (''app'', ''server''), fullname = ''app:server'', name = ''server'',
      path = ''app'', type = ''cc_binary'', srcs = [''main.cc''],
      deps = [(''app'', ''b''), (''#'', ''pthread'')],
      expanded_deps = [(''app'', ''b''), (''#'', ''pthread'')],
      visibility = PUBLIC,
      data = [(''test_timeout'', PInt 600), (''targets'', PDict []),
              (''default_target'', PStr []), (''generated_hdrs'', PList [])],
      allow_duplicate_source = False, build_rules = None, rule_hash_memo = None\<rparr>"

definition lib_pthread :: target where
  "lib_pthread =
     \<lparr>key = (''#'', ''pthread''), fullname = ''#:pthread'', name = ''pthread'',
      path = ''#'', type = ''system_library'', srcs = [],
      deps = [], expanded_deps = [], visibility = PUBLIC,
      data = [(''test_timeout'', PInt 600), (''targets'', PDict []),
              (''default_target'', PStr []), (''generated_hdrs'', PList [])],
      allow_duplicate_source = False, build_rules = None, rule_hash_memo = None\<rparr>"

definition world1 :: world where
  "world1 = \<lparr>target_database = [(''#'', ''pthread'') \<mapsto> lib_pthread],
              src_target_map = [''app/main.cc'' \<mapsto> (''app:server'', False)],
              warnings = []\<rparr>"

definition app_server_loc :: target where
  "app_server_loc = app_server\<lparr>deps := deps app_server @ [(''proto'', ''msg'')],
                      expanded_deps := expanded_deps app_server @ [(''proto'', ''msg'')]\<rparr>"

text \<open>
  The system library that \<open>$(location #pthread):x)\<close> makes \<open>app:server\<close> depend on.
\<close>

definition lib_pthread_x :: target where
  "lib_pthread_x = lib_pthread\<lparr>key := (''#'', ''pthread):x''), fullname := ''#:pthread):x'',
               name := ''pthread):x''\<rparr>"

definition app_server_x :: target where
  "app_server_x = app_server\<lparr>deps := deps app_server @ [(''#'', ''pthread):x'')],
                      expanded_deps := expanded_deps app_server @ [(''#'', ''pthread):x'')]\<rparr>"

definition app_server_glog :: target where
  "app_server_glog = app_server\<lparr>expanded_deps := expanded_deps app_server @ [(''thirdparty/glog'', ''glog'')]\<rparr>"

text \<open>A rule-generation method that writes one build statement through \<open>_write_rule\<close>.\<close>

definition one_rule :: "target \<Rightarrow> unit \<Rightarrow> error + target \<times> unit" where
  "one_rule self st =
     (case write_rule ''build app/server: link app/main.o'' self of
        Inl e \<Rightarrow> Inl e
      | Inr self' \<Rightarrow> Inr (self', st))"

definition app_server_built :: target where
  "app_server_built =
     app_server\<lparr>build_rules := Some [''build app/server: link app/main.o'' @ [CHR 0x0A]]\<rparr>"

text \<open>
  Stand-ins for \<open>str\<close> and \<open>md5sum\<close>, with the default \<open>_rule_hash_factors\<close>;
  the theorems on \<open>rule_hash\<close> hold for every such pair of functions.
\<close>

fun decimal :: "nat \<Rightarrow> string" where
  "decimal n =
     (if n < 10 then [char_of (48 + n)]
      else decimal (n div 10) @ [char_of (48 + n mod 10)])"

fun render :: "pyval \<Rightarrow> string" where
  "render PNone = ''None''"
| "render (PBool b) = (if b then ''True'' else ''False'')"
| "render (PInt i) = (if i < 0 then ''-'' else []) @ decimal (nat \<bar>i\<bar>)"
| "render (PStr s) = ''<'' @ s @ ''>''"
| "render (PList xs) = ''['' @ concat (map (\<lambda>x. render x @ '','') xs) @ '']''"
| "render (PDict d) = ''{'' @ concat (map (\<lambda>kv. fst kv @ '':'' @ render (snd kv) @ '','') d) @ ''}''"

definition sample_env :: hash_env where
  "sample_env = \<lparr>str_of = (\<lambda>items. concat (map (\<lambda>kv. fst kv @ ''='' @ render (snd kv) @ '';'') items)),
                  md5sum = (\<lambda>s. ''md5:'' @ s),
                  rule_hash_factors = default_rule_hash_factors\<rparr>"

definition app_server_over :: target where
  "app_server_over =
     app_server\<lparr>data := AList.update ''srcs'' (PList [PStr ''gen.cc'']) (data app_server)\<rparr>"


text \<open>
  A database of five targets: two binaries \<open>server\<close> in different directories, alike
  in kind, name and sources, each depending on the library \<open>b\<close> of its directory and
  on \<open>#pthread\<close>; and \<open>app:server\<close> after \<open>_add_target_file\<close> recorded its output.
\<close>

definition app_b :: target where
  "app_b =
     \<lparr>key = (''app'', ''b''), fullname = ''app:b'', name = ''b'',
      path = ''app'', type = ''cc_library'', srcs = [''b.cc''],
      deps = [], expanded_deps = [], visibility = PUBLIC,
      data = [(''test_timeout'', PInt 600), (''targets'', PDict []),
              (''default_target'', PStr []), (''generated_hdrs'', PList [])],
      allow_duplicate_source = False, build_rules = None, rule_hash_memo = None\<rparr>"

definition tools_b :: target where
  "tools_b = app_b\<lparr>key := (''tools'', ''b''), fullname := ''tools:b'', path := ''tools''\<rparr>"

definition tools_server :: target where
  "tools_server =
     app_server\<lparr>key := (''tools'', ''server''), fullname := ''tools:server'', path := ''tools'',
       deps := [(''tools'', ''b''), (''#'', ''pthread'')],
       expanded_deps := [(''tools'', ''b''), (''#'', ''pthread'')]\<rparr>"

definition db_two :: "key \<rightharpoonup> target" where
  "db_two = [(''#'', ''pthread'') \<mapsto> lib_pthread, (''app'', ''b'') \<mapsto> app_b,
             (''tools'', ''b'') \<mapsto> tools_b, (''app'', ''server'') \<mapsto> app_server,
             (''tools'', ''server'') \<mapsto> tools_server]"

definition app_server_file :: target where
  "app_server_file =
     app_server\<lparr>data := [(''test_timeout'', PInt 600),
                          (''targets'', PDict [(''bin'', PStr ''build64_release/app/server'')]),
                          (''default_target'', PStr ''build64_release/app/server''),
                          (''generated_hdrs'', PList [])]\<rparr>"

section \<open>Strings and paths: basic facts\<close>

lemma startswith_append [simp]: "startswith (p @ b) p"
  by (simp add: startswith_def)



lemma normpath_a_common: "normpath (path_join ''a'' ''common.cc'') = ''a/common.cc''"
  by code_simp

lemma src_ok_common: "\<not> contains_str ''..'' ''common.cc''" "\<not> startswith ''common.cc'' ''/''"
  by (simp_all add: startswith_def)

section \<open>Source ownership registry\<close>


text \<open>
  C3, as the code has it. A target \<open>tgt\<close> declares a well-formed source \<open>s\<close> whose
  path is already claimed by \<open>existed\<close>. If the existing claimant disallows duplicate
  sources, the registry is left as it was whenever the step returns, and it does return,
  with the whole state unchanged, when the new target allows duplicates (the case of
  \<open>a:x\<close> registered before \<open>a:y\<close>: \<open>a:x\<close> stays the owner and nothing is fatal).
  If the existing claimant allows duplicate sources, the step returns and the path is
  claimed by the new target, whether or not the new target allows duplicates, and no
  warning is logged.
\<close>

theorem check_src_claimed:
  assumes "\<not> contains_str ''..'' s" and "\<not> startswith s ''/''"
    and "src_target_map w (normpath (path_join dir s)) = Some existed"
  shows "(\<not> snd existed \<longrightarrow>
            (\<forall>w'. check_src action dir tgt s w = Inr w' \<longrightarrow> src_target_map w' = src_target_map w))
       \<and> (\<not> snd existed \<and> snd tgt \<longrightarrow> check_src action dir tgt s w = Inr w)
       \<and> (snd existed \<longrightarrow>
            (\<exists>w'. check_src action dir tgt s w = Inr w'
               \<and> src_target_map w' = (src_target_map w)(normpath (path_join dir s) \<mapsto> tgt)
               \<and> warnings w' = warnings w))"
  using assms by (auto simp: check_src_def Let_def fun_upd_idem)

theorem check_src_claimed_witness:
  "check_src ''error'' ''a'' (''a:y'', True) ''common.cc'' registry_x = Inr registry_x
   \<and> src_target_map registry_x ''a/common.cc'' = Some (''a:x'', False)"
  using check_src_claimed [of "''common.cc''" registry_x "''a''" "(''a:x'', False)" "''error''" "(''a:y'', True)"]
    src_ok_common normpath_a_common
  by (simp add: registry_x_def)

text \<open>
  C3 as stated fails in its last case: when both the existing claimant \<open>a:x\<close> and the
  new target \<open>a:y\<close> allow duplicate sources, the claim on \<open>a/common.cc\<close> does not stay
  with \<open>a:x\<close>; it moves to \<open>a:y\<close>.
\<close>

theorem both_allow_transfers_counterexample:
  "src_target_map registry_x_dup ''a/common.cc'' = Some (''a:x'', True)
   \<and> check_src ''warning'' ''a'' (''a:y'', True) ''common.cc'' registry_x_dup
       = Inr (registry_x_dup\<lparr>src_target_map := [''a/common.cc'' \<mapsto> (''a:y'', True)]\<rparr>)"
  using src_ok_common normpath_a_common
  by (simp add: check_src_def registry_x_dup_def)



section \<open>Dependency resolution\<close>

lemma append_expanded_dep_simps [simp]:
  "deps (append_expanded_dep k t) = deps t"
  "path (append_expanded_dep k t) = path t"
  "fullname (append_expanded_dep k t) = fullname t"
  "set (expanded_deps (append_expanded_dep k t)) = insert k (set (expanded_deps t))"
  by (auto simp: append_expanded_dep_def)

lemma append_dep_simps [simp]:
  "expanded_deps (append_dep k t) = expanded_deps t"
  "path (append_dep k t) = path t"
  "fullname (append_dep k t) = fullname t"
  "set (deps (append_dep k t)) = insert k (set (deps t))"
  by (auto simp: append_dep_def)

lemma distinct_append_dep [simp]:
  "distinct (deps (append_dep k t)) = distinct (deps t)"
  "distinct (expanded_deps (append_expanded_dep k t)) = distinct (expanded_deps t)"
  by (auto simp: append_dep_def append_expanded_dep_def)

lemma append_dep_present:
  "k \<in> set (deps t) \<Longrightarrow> append_dep k t = t"
  "k \<in> set (expanded_deps t) \<Longrightarrow> append_expanded_dep k t = t"
  by (auto simp: append_dep_def append_expanded_dep_def)

lemma init_target_deps_subset:
  "init_target_deps cfg csp ds self w = Inr (t, w') \<Longrightarrow>
   set (deps self) \<subseteq> set (expanded_deps self) \<Longrightarrow> set (deps t) \<subseteq> set (expanded_deps t)"
proof (induction ds arbitrary: self w)
  case Nil
  then show ?case by simp
next
  case (Cons d ds)
  from Cons.prems(1) obtain k w1 where
    u: "unify_dep cfg csp self d w = Inr (k, w1)" and
    r: "init_target_deps cfg csp ds (append_dep k (append_expanded_dep k self)) w1 = Inr (t, w')"
    by (auto split: sum.splits prod.splits)
  have "set (deps (append_dep k (append_expanded_dep k self)))
          \<subseteq> set (expanded_deps (append_dep k (append_expanded_dep k self)))"
    using Cons.prems(2) by auto
  with Cons.IH [OF r] show ?case .
qed

lemma add_hardcode_library_subset:
  "add_hardcode_library cfg csp hs self w = Inr (t, w') \<Longrightarrow>
   set (deps self) \<subseteq> set (expanded_deps self) \<Longrightarrow> set (deps t) \<subseteq> set (expanded_deps t)"
proof (induction hs arbitrary: self w)
  case Nil
  then show ?case by simp
next
  case (Cons d ds)
  from Cons.prems(1) obtain k w1 where
    r: "add_hardcode_library cfg csp ds (append_expanded_dep k self) w1 = Inr (t, w')"
    by (auto split: sum.splits prod.splits if_splits)
  have "set (deps (append_expanded_dep k self)) \<subseteq> set (expanded_deps (append_expanded_dep k self))"
    using Cons.prems(2) by auto
  with Cons.IH [OF r] show ?case .
qed

lemma add_location_reference_target_subset:
  "add_location_reference_target cfg csp m self w = Inr (r, t, w') \<Longrightarrow>
   set (deps self) \<subseteq> set (expanded_deps self) \<Longrightarrow> set (deps t) \<subseteq> set (expanded_deps t)"
  by (auto simp: add_location_reference_target_def Let_def split: option.splits sum.splits prod.splits)

lemma init_visibility_deps:
  "init_visibility cfg csp vis self w = Inr (t, w') \<Longrightarrow>
   deps t = deps self \<and> expanded_deps t = expanded_deps self"
  by (auto simp: init_visibility_def split: option.splits sum.splits prod.splits if_splits)

lemma init_target_parts:
  assumes "init_target cfg csp ad n ty ss ds vis kw w = Inr (t, w')"
  obtains w1 t2 w2 t3 where
    "check_name n = Inr ()" "check_kwargs kw = Inr ()"
    "check_srcs cfg (fresh_target cfg csp ad n ty ss) w = Inr w1"
    "check_deps ds = Inr ()"
    "init_target_deps cfg csp ds (fresh_target cfg csp ad n ty ss) w1 = Inr (t2, w2)"
    "init_visibility cfg csp vis t2 w2 = Inr (t3, w')"
    "t = t3\<lparr>data := AList.update ''generated_hdrs'' (PList []) (data t3)\<rparr>"
  using assms unfolding init_target_def Let_def
  by (auto split: sum.splits prod.splits)

lemma init_target_subset:
  assumes "init_target cfg csp ad n ty ss ds vis kw w = Inr (t, w')"
  shows "set (deps t) \<subseteq> set (expanded_deps t)"
proof -
  from assms obtain w1 t2 w2 t3 where
    d: "init_target_deps cfg csp ds (fresh_target cfg csp ad n ty ss) w1 = Inr (t2, w2)" and
    v: "init_visibility cfg csp vis t2 w2 = Inr (t3, w')" and
    t: "t = t3\<lparr>data := AList.update ''generated_hdrs'' (PList []) (data t3)\<rparr>"
    by (rule init_target_parts)
  have "set (deps t2) \<subseteq> set (expanded_deps t2)"
    using init_target_deps_subset [OF d] by (simp add: fresh_target_def)
  with init_visibility_deps [OF v] t show ?thesis by simp
qed

lemma add_system_library_registered:
  "add_system_library cfg csp (''#'', n) (c # n) w = Inr w1 \<Longrightarrow>
   target_database w1 (''#'', n) \<noteq> None"
  by (auto simp: add_system_library_def system_library_def register_target_def Let_def
           split: option.splits sum.splits)

lemma add_system_library_again:
  "add_system_library cfg csp (''#'', n) (c # n) w = Inr w1 \<Longrightarrow>
   add_system_library cfg csp (''#'', n) (c # n) w1 = Inr w1"
  using add_system_library_registered [of cfg csp n c w w1]
  by (auto simp: add_system_library_def)

lemma unify_dep_again:
  assumes "unify_dep cfg csp self r w = Inr (k, w1)"
    and "path self' = path self" and "fullname self' = fullname self"
  shows "unify_dep cfg csp self' r w1 = Inr (k, w1)"
proof (cases r)
  case Nil
  with assms show ?thesis by (simp add: unify_dep_def)
next
  case (Cons c n)
  with assms show ?thesis
    by (auto simp: unify_dep_def Let_def add_system_library_again
             split: if_splits sum.splits prod.splits)
qed

lemma count_list_distinct: "distinct xs \<Longrightarrow> x \<in> set xs \<Longrightarrow> count_list xs x = 1"
  by (induction xs) auto

lemma add_both_fixed:
  "k \<in> set (deps t) \<Longrightarrow> k \<in> set (expanded_deps t) \<Longrightarrow>
   append_dep k (append_expanded_dep k t) = t"
  by (simp add: append_dep_def append_expanded_dep_def)

lemma init_target_deps_distinct:
  "init_target_deps cfg csp ds self w = Inr (t, w') \<Longrightarrow>
   distinct (deps self) \<Longrightarrow> distinct (expanded_deps self) \<Longrightarrow>
   distinct (deps t) \<and> distinct (expanded_deps t)"
proof (induction ds arbitrary: self w)
  case Nil
  then show ?case by simp
next
  case (Cons d ds)
  from Cons.prems(1) obtain k w1 where
    r: "init_target_deps cfg csp ds (append_dep k (append_expanded_dep k self)) w1 = Inr (t, w')"
    by (auto split: sum.splits prod.splits)
  show ?case
    using Cons.IH [OF r] Cons.prems(2,3) by simp
qed

lemma init_target_distinct:
  assumes "init_target cfg csp ad n ty ss ds vis kw w = Inr (t, w')"
  shows "distinct (deps t) \<and> distinct (expanded_deps t)"
proof -
  from assms obtain w1 t2 w2 t3 where
    d: "init_target_deps cfg csp ds (fresh_target cfg csp ad n ty ss) w1 = Inr (t2, w2)" and
    v: "init_visibility cfg csp vis t2 w2 = Inr (t3, w')" and
    t: "t = t3\<lparr>data := AList.update ''generated_hdrs'' (PList []) (data t3)\<rparr>"
    by (rule init_target_parts)
  have "distinct (deps t2) \<and> distinct (expanded_deps t2)"
    using init_target_deps_distinct [OF d] by (simp add: fresh_target_def)
  with init_visibility_deps [OF v] t show ?thesis by simp
qed

lemma count_list_mem: "count_list xs x = Suc n \<Longrightarrow> x \<in> set xs"
  by (induction xs) (auto split: if_splits)

lemma relative_dep_unify:
  assumes "startswith d ''./''" and "count_list d CHR '':'' = 1"
    and "\<not> contains_str ''..'' (fst (rsplit1 CHR '':'' d))"
  shows "check_format d = Inr ()"
    and "unify_dep cfg csp self d w =
           Inr ((normpath (path self @ ''/'' @ fst (rsplit1 CHR '':'' d)),
                 snd (rsplit1 CHR '':'' d)), w)"
proof -
  from assms(1) obtain rest where d: "d = CHR ''.'' # CHR ''/'' # rest"
    by (cases d; cases "tl d") (auto simp: startswith_def)
  have colon: "CHR '':'' \<in> set d"
    using assms(2) count_list_mem [of d "CHR '':''" 0] by simp
  show "check_format d = Inr ()"
    using assms(1,2) by (simp add: check_format_def)
  show "unify_dep cfg csp self d w =
           Inr ((normpath (path self @ ''/'' @ fst (rsplit1 CHR '':'' d)),
                 snd (rsplit1 CHR '':'' d)), w)"
    using assms(3) colon unfolding d
    by (auto simp: unify_dep_def startswith_def split: prod.splits)
qed

lemma init_target_deps_frame:
  "init_target_deps cfg csp ds self w = Inr (t, w') \<Longrightarrow>
   path t = path self \<and> set (deps self) \<subseteq> set (deps t)
   \<and> set (expanded_deps self) \<subseteq> set (expanded_deps t)"
proof (induction ds arbitrary: self w)
  case Nil
  then show ?case by simp
next
  case (Cons d ds)
  from Cons.prems(1) obtain k w1 where
    r: "init_target_deps cfg csp ds (append_dep k (append_expanded_dep k self)) w1 = Inr (t, w')"
    by (auto split: sum.splits prod.splits)
  show ?case
    using Cons.IH [OF r] by auto
qed

lemma init_target_deps_mem:
  assumes "startswith d ''./''" and "count_list d CHR '':'' = 1"
    and "\<not> contains_str ''..'' (fst (rsplit1 CHR '':'' d))"
  shows "init_target_deps cfg csp ds self w = Inr (t, w') \<Longrightarrow> d \<in> set ds \<Longrightarrow>
         (normpath (path self @ ''/'' @ fst (rsplit1 CHR '':'' d)), snd (rsplit1 CHR '':'' d))
           \<in> set (deps t) \<inter> set (expanded_deps t)"
proof (induction ds arbitrary: self w)
  case Nil
  then show ?case by simp
next
  case (Cons x xs)
  from Cons.prems(1) obtain k w1 where
    u: "unify_dep cfg csp self x w = Inr (k, w1)" and
    r: "init_target_deps cfg csp xs (append_dep k (append_expanded_dep k self)) w1 = Inr (t, w')"
    by (auto split: sum.splits prod.splits)
  show ?case
  proof (cases "x = d")
    case True
    with u relative_dep_unify(2) [OF assms, of cfg csp self w]
    have "k = (normpath (path self @ ''/'' @ fst (rsplit1 CHR '':'' d)), snd (rsplit1 CHR '':'' d))"
      by simp
    with init_target_deps_frame [OF r] show ?thesis by auto
  next
    case False
    with Cons.prems(2) have "d \<in> set xs" by simp
    from Cons.IH [OF r this] show ?thesis by simp
  qed
qed

lemma normpath_app: "normpath ''app'' = ''app''" "normpath ''app/main.cc'' = ''app/main.cc''"
  "normpath ''proto'' = ''proto''" "normpath ''app/./sub'' = ''app/sub''"
  by code_simp+

lemma init_app_server:
  "init_target cfg0 ''app'' False ''server'' ''cc_binary'' [''main.cc''] ['':b'', ''#pthread'']
     None [] world0 = Inr (app_server, world1)"
  by (simp add: init_target_def check_name_def check_kwargs_def check_srcs_def check_src_def
        check_format_def init_visibility_def append_dep_def append_expanded_dep_def
        fresh_target_def unify_dep_def add_system_library_def system_library_def
        register_target_def path_join_def startswith_def endswith_def normpath_app
        cfg0_def world0_def world1_def app_server_def lib_pthread_def Let_def)

lemma location_search_msg:
  "location_search ''$(location //proto:msg jar)'' = Some (''//proto:msg'', Some '' jar'')"
  by code_simp

lemma location_app_server:
  "add_location_reference_target cfg0 ''app'' (location_search ''$(location //proto:msg jar)'')
     app_server world1 = Inr (Some ((''proto'', ''msg''), ''jar''), app_server_loc, world1)"
  by (simp add: location_search_msg add_location_reference_target_def unify_dep_def
        startswith_def rsplit1_def normpath_app strip_def is_space_def
        append_dep_def append_expanded_dep_def app_server_def app_server_loc_def)

lemma split_glog: "split_on CHR '':'' ''//thirdparty/glog:glog'' = [''//thirdparty/glog'', ''glog'']"
  by code_simp

lemma strip_glog: "strip ''//thirdparty/glog'' = ''//thirdparty/glog''" "strip ''glog'' = ''glog''"
  by code_simp+

lemma hardcode_app_server:
  "add_hardcode_library cfg0 ''app'' [''#pthread'', ''//thirdparty/glog:glog''] app_server world1
     = Inr (app_server_glog, world1)"
  by (simp add: convert_string_to_target_helper_def startswith_def split_glog strip_glog
        add_system_library_def append_expanded_dep_def
        app_server_def app_server_glog_def world1_def)

lemma rsplit_sub: "rsplit1 CHR '':'' ''./sub:x'' = (''./sub'', ''x'')"
  by code_simp

lemma sub_x_form:
  "startswith ''./sub:x'' ''./''" "count_list ''./sub:x'' CHR '':'' = 1"
  "\<not> contains_str ''..'' (fst (rsplit1 CHR '':'' ''./sub:x''))"
  by (simp_all add: rsplit_sub startswith_def)

text \<open>
  C5. A constructed target has \<open>deps \<subseteq> expanded_deps\<close> as sets, and each operation
  that changes the two lists (\<open>_init_target_deps\<close>, \<open>_add_location_reference_target\<close>,
  \<open>_add_hardcode_library\<close>) keeps it so whenever it returns.
\<close>

theorem deps_subset_expanded_deps:
  "(init_target cfg csp ad n ty ss ds vis kw w = Inr (t, w') \<longrightarrow>
      set (deps t) \<subseteq> set (expanded_deps t))
   \<and> (set (deps self) \<subseteq> set (expanded_deps self) \<longrightarrow>
        (init_target_deps cfg csp ds self w = Inr (t1, w1) \<longrightarrow>
           set (deps t1) \<subseteq> set (expanded_deps t1))
      \<and> (add_location_reference_target cfg csp m self w = Inr (r, t2, w2) \<longrightarrow>
           set (deps t2) \<subseteq> set (expanded_deps t2))
      \<and> (add_hardcode_library cfg csp hs self w = Inr (t3, w3) \<longrightarrow>
           set (deps t3) \<subseteq> set (expanded_deps t3)))"
proof (intro conjI impI)
  assume "init_target cfg csp ad n ty ss ds vis kw w = Inr (t, w')"
  then show "set (deps t) \<subseteq> set (expanded_deps t)"
    by (rule init_target_subset)
next
  assume "set (deps self) \<subseteq> set (expanded_deps self)"
    and "init_target_deps cfg csp ds self w = Inr (t1, w1)"
  then show "set (deps t1) \<subseteq> set (expanded_deps t1)"
    using init_target_deps_subset by blast
next
  assume "set (deps self) \<subseteq> set (expanded_deps self)"
    and "add_location_reference_target cfg csp m self w = Inr (r, t2, w2)"
  then show "set (deps t2) \<subseteq> set (expanded_deps t2)"
    using add_location_reference_target_subset by blast
next
  assume "set (deps self) \<subseteq> set (expanded_deps self)"
    and "add_hardcode_library cfg csp hs self w = Inr (t3, w3)"
  then show "set (deps t3) \<subseteq> set (expanded_deps t3)"
    using add_hardcode_library_subset by blast
qed

theorem deps_subset_expanded_deps_witness:
  "init_target cfg0 ''app'' False ''server'' ''cc_binary'' [''main.cc''] ['':b'', ''#pthread'']
     None [] world0 = Inr (app_server, world1)
   \<and> set (deps app_server) \<subseteq> set (expanded_deps app_server)
   \<and> add_location_reference_target cfg0 ''app'' (location_search ''$(location //proto:msg jar)'')
        app_server world1 = Inr (Some ((''proto'', ''msg''), ''jar''), app_server_loc, world1)
   \<and> set (deps app_server_loc) \<subseteq> set (expanded_deps app_server_loc)
   \<and> add_hardcode_library cfg0 ''app'' [''#pthread'', ''//thirdparty/glog:glog''] app_server world1
        = Inr (app_server_glog, world1)
   \<and> set (deps app_server_glog) \<subseteq> set (expanded_deps app_server_glog)"
proof -
  note constructed = deps_subset_expanded_deps [where cfg = cfg0 and csp = "''app''" and ad = False
      and n = "''server''" and ty = "''cc_binary''" and ss = "[''main.cc'']"
      and ds = "['':b'', ''#pthread'']" and vis = None and kw = "[]" and w = world0
      and t = app_server and w' = world1 and self = app_server and ?t1.0 = app_server
      and ?w1.0 = world1 and m = None and r = None and ?t2.0 = app_server and ?w2.0 = world1
      and hs = "[]" and ?t3.0 = app_server and ?w3.0 = world1]
  note mutated = deps_subset_expanded_deps [where cfg = cfg0 and csp = "''app''" and ad = False
      and n = "''server''" and ty = "''cc_binary''" and ss = "[''main.cc'']"
      and ds = "['':b'', ''#pthread'']" and vis = None and kw = "[]" and w = world1
      and t = app_server and w' = world1 and self = app_server and ?t1.0 = app_server
      and ?w1.0 = world1 and m = "location_search ''$(location //proto:msg jar)''"
      and r = "Some ((''proto'', ''msg''), ''jar'')" and ?t2.0 = app_server_loc and ?w2.0 = world1
      and hs = "[''#pthread'', ''//thirdparty/glog:glog'']" and ?t3.0 = app_server_glog
      and ?w3.0 = world1]
  from constructed init_app_server
  have base: "set (deps app_server) \<subseteq> set (expanded_deps app_server)"
    by blast
  from mutated base location_app_server
  have loc: "set (deps app_server_loc) \<subseteq> set (expanded_deps app_server_loc)"
    by blast
  from mutated base hardcode_app_server
  have hard: "set (deps app_server_glog) \<subseteq> set (expanded_deps app_server_glog)"
    by blast
  from init_app_server base location_app_server loc hardcode_app_server hard
  show ?thesis by blast
qed

text \<open>
  C6. Resolving the same reference a second time changes nothing: for a target whose two
  lists have no repeated key (as every constructed target has, see
  \<open>init_target_distinct\<close>), a location reference or a declared dependency that was
  resolved once resolves again to the same key, leaves target and database as they are,
  and the key occurs exactly once in \<open>deps\<close> and exactly once in \<open>expanded_deps\<close>.
\<close>

theorem resolution_idempotent:
  assumes "distinct (deps self)" and "distinct (expanded_deps self)"
  shows "(add_location_reference_target cfg csp (Some (r, ty)) self w = Inr (res, t1, w1) \<longrightarrow>
            add_location_reference_target cfg csp (Some (r, ty)) t1 w1 = Inr (res, t1, w1)
            \<and> (\<exists>k tg. res = Some (k, tg) \<and> unify_dep cfg csp self r w = Inr (k, w1)
                  \<and> count_list (deps t1) k = 1 \<and> count_list (expanded_deps t1) k = 1))
       \<and> (init_target_deps cfg csp [r] self w = Inr (t2, w2) \<longrightarrow>
            init_target_deps cfg csp [r] t2 w2 = Inr (t2, w2)
            \<and> init_target_deps cfg csp [r, r] self w = Inr (t2, w2)
            \<and> (\<exists>k. unify_dep cfg csp self r w = Inr (k, w2)
                  \<and> count_list (deps t2) k = 1 \<and> count_list (expanded_deps t2) k = 1))"
proof (intro conjI impI)
  assume a: "add_location_reference_target cfg csp (Some (r, ty)) self w = Inr (res, t1, w1)"
  then obtain k where u: "unify_dep cfg csp self r w = Inr (k, w1)"
    and t1: "t1 = append_dep k (append_expanded_dep k self)"
    and res: "res = Some (k, strip (case ty of None \<Rightarrow> [] | Some t \<Rightarrow> if t = [] then [] else t))"
    by (auto simp: add_location_reference_target_def Let_def split: sum.splits prod.splits)
  have u': "unify_dep cfg csp t1 r w1 = Inr (k, w1)"
    using unify_dep_again [OF u, of t1] t1 by simp
  have same: "append_dep k (append_expanded_dep k t1) = t1"
    using t1 by (intro add_both_fixed) simp_all
  show "add_location_reference_target cfg csp (Some (r, ty)) t1 w1 = Inr (res, t1, w1)"
    using u' same res by (simp add: add_location_reference_target_def Let_def)
  have "count_list (deps t1) k = 1" "count_list (expanded_deps t1) k = 1"
    using t1 assms by (simp_all add: count_list_distinct)
  with res u show "\<exists>k tg. res = Some (k, tg) \<and> unify_dep cfg csp self r w = Inr (k, w1)
      \<and> count_list (deps t1) k = 1 \<and> count_list (expanded_deps t1) k = 1"
    by blast
next
  assume a: "init_target_deps cfg csp [r] self w = Inr (t2, w2)"
  then obtain k where u: "unify_dep cfg csp self r w = Inr (k, w2)"
    and t2: "t2 = append_dep k (append_expanded_dep k self)"
    by (auto split: sum.splits prod.splits)
  have u': "unify_dep cfg csp t2 r w2 = Inr (k, w2)"
    using unify_dep_again [OF u, of t2] t2 by simp
  have same: "append_dep k (append_expanded_dep k t2) = t2"
    using t2 by (intro add_both_fixed) simp_all
  show "init_target_deps cfg csp [r] t2 w2 = Inr (t2, w2)"
    using u' same by simp
  show "init_target_deps cfg csp [r, r] self w = Inr (t2, w2)"
    using u u' same t2 by simp
  have "count_list (deps t2) k = 1" "count_list (expanded_deps t2) k = 1"
    using t2 assms by (simp_all add: count_list_distinct)
  with u show "\<exists>k. unify_dep cfg csp self r w = Inr (k, w2)
      \<and> count_list (deps t2) k = 1 \<and> count_list (expanded_deps t2) k = 1"
    by blast
qed

theorem resolution_idempotent_witness:
  "add_location_reference_target cfg0 ''app'' (Some (''//proto:msg'', Some '' jar''))
     app_server world1 = Inr (Some ((''proto'', ''msg''), ''jar''), app_server_loc, world1)
   \<and> add_location_reference_target cfg0 ''app'' (Some (''//proto:msg'', Some '' jar''))
     app_server_loc world1 = Inr (Some ((''proto'', ''msg''), ''jar''), app_server_loc, world1)
   \<and> count_list (deps app_server_loc) (''proto'', ''msg'') = 1
   \<and> count_list (expanded_deps app_server_loc) (''proto'', ''msg'') = 1"
  using resolution_idempotent [where self = app_server and cfg = cfg0 and csp = "''app''"
      and r = "''//proto:msg''" and ty = "Some '' jar''" and w = world1
      and res = "Some ((''proto'', ''msg''), ''jar'')" and ?t1.0 = app_server_loc
      and ?w1.0 = world1]
    location_app_server
  by (simp add: location_search_msg app_server_def app_server_loc_def)

lemma marked_dep_resolved:
  assumes "startswith d ''./''" and "count_list d CHR '':'' = 1"
    and "\<not> contains_str ''..'' (fst (rsplit1 CHR '':'' d))"
  shows "check_format d = Inr ()
    \<and> unify_dep cfg csp self d w =
          Inr ((normpath (path self @ ''/'' @ fst (rsplit1 CHR '':'' d)),
                snd (rsplit1 CHR '':'' d)), w)
    \<and> (CHR ''/'' \<notin> set n \<longrightarrow>
          (\<exists>t. init_target cfg csp ad n ty [] [d] None [] w = Inr (t, w)
             \<and> deps t = [(normpath (csp @ ''/'' @ fst (rsplit1 CHR '':'' d)),
                           snd (rsplit1 CHR '':'' d))]
             \<and> expanded_deps t = deps t))
    \<and> (init_target cfg csp ad n ty ss ds vis kw w = Inr (t', w') \<and> d \<in> set ds \<longrightarrow>
          (normpath (csp @ ''/'' @ fst (rsplit1 CHR '':'' d)), snd (rsplit1 CHR '':'' d))
            \<in> set (deps t') \<inter> set (expanded_deps t'))"
proof (intro conjI impI)
  show "check_format d = Inr ()"
    by (rule relative_dep_unify(1) [OF assms])
  show "unify_dep cfg csp self d w =
          Inr ((normpath (path self @ ''/'' @ fst (rsplit1 CHR '':'' d)),
                snd (rsplit1 CHR '':'' d)), w)"
    by (rule relative_dep_unify(2) [OF assms])
next
  assume n: "CHR ''/'' \<notin> set n"
  let ?self = "fresh_target cfg csp ad n ty []"
  have u: "unify_dep cfg csp ?self d w =
          Inr ((normpath (csp @ ''/'' @ fst (rsplit1 CHR '':'' d)), snd (rsplit1 CHR '':'' d)), w)"
    using relative_dep_unify(2) [OF assms, of cfg csp ?self w] by (simp add: fresh_target_def)
  show "\<exists>t. init_target cfg csp ad n ty [] [d] None [] w = Inr (t, w)
             \<and> deps t = [(normpath (csp @ ''/'' @ fst (rsplit1 CHR '':'' d)),
                           snd (rsplit1 CHR '':'' d))]
             \<and> expanded_deps t = deps t"
    using n u relative_dep_unify(1) [OF assms]
    by (simp add: init_target_def check_name_def check_kwargs_def check_srcs_def
          init_visibility_def append_dep_def append_expanded_dep_def fresh_target_def)
next
  assume a: "init_target cfg csp ad n ty ss ds vis kw w = Inr (t', w') \<and> d \<in> set ds"
  then obtain w1 t2 w2 t3 where
    dd: "init_target_deps cfg csp ds (fresh_target cfg csp ad n ty ss) w1 = Inr (t2, w2)" and
    v: "init_visibility cfg csp vis t2 w2 = Inr (t3, w')" and
    t: "t' = t3\<lparr>data := AList.update ''generated_hdrs'' (PList []) (data t3)\<rparr>"
    by (auto elim: init_target_parts)
  from init_target_deps_mem [OF assms dd] a
  have "(normpath (csp @ ''/'' @ fst (rsplit1 CHR '':'' d)), snd (rsplit1 CHR '':'' d))
          \<in> set (deps t2) \<inter> set (expanded_deps t2)"
    by (simp add: fresh_target_def)
  with init_visibility_deps [OF v] t
  show "(normpath (csp @ ''/'' @ fst (rsplit1 CHR '':'' d)), snd (rsplit1 CHR '':'' d))
            \<in> set (deps t') \<inter> set (expanded_deps t')"
    by simp
qed

lemma check_deps_mem_fatal:
  "d \<in> set ds \<Longrightarrow> check_format d = Inl e \<Longrightarrow> \<exists>e'. check_deps ds = Inl e'"
  by (induction ds) (auto split: sum.splits)

lemma unmarked_dep_fatal:
  assumes "\<not> startswith d '':''" and "\<not> startswith d ''#''" and "\<not> startswith d ''//''"
    and "\<not> startswith d ''./''"
  shows "check_format d = Inl (InvalidFormat d)"
    and "d \<in> set ds \<Longrightarrow> \<exists>e. init_target cfg csp ad n ty ss ds vis kw w = Inl e"
    and "CHR ''/'' \<notin> set n \<Longrightarrow>
           init_target cfg csp ad n ty [] [d] None [] w = Inl (InvalidFormat d)"
proof -
  show f: "check_format d = Inl (InvalidFormat d)"
    using assms by (simp add: check_format_def)
  show "\<exists>e. init_target cfg csp ad n ty ss ds vis kw w = Inl e" if "d \<in> set ds"
  proof -
    from check_deps_mem_fatal [OF that f] obtain e' where "check_deps ds = Inl e'" ..
    then show ?thesis
      by (simp add: init_target_def Let_def split: sum.splits)
  qed
  show "init_target cfg csp ad n ty [] [d] None [] w = Inl (InvalidFormat d)"
    if "CHR ''/'' \<notin> set n"
    using that f
    by (simp add: init_target_def check_name_def check_kwargs_def check_srcs_def
          fresh_target_def)
qed

lemma util_x_form:
  "\<not> startswith ''lib/util:x'' '':''" "\<not> startswith ''lib/util:x'' ''#''"
  "\<not> startswith ''lib/util:x'' ''//''" "\<not> startswith ''lib/util:x'' ''./''"
  by (simp_all add: startswith_def)

text \<open>
  C4, as the code has it. A dependency string that starts with \<open>./\<close>, has exactly one
  colon and no \<open>..\<close> in its path passes \<open>_check_format\<close> and is resolved by
  \<open>_unify_dep\<close> to the key \<open>(normpath(dir/path), name)\<close> without touching the
  database; a target declared with it alone is constructed with that key as its only
  entry of \<open>deps\<close> and \<open>expanded_deps\<close>, and every constructed target that declares
  it has the key in both lists. A dependency string that starts with none of \<open>:\<close>,
  \<open>#\<close>, \<open>//\<close> and \<open>./\<close> is rejected by \<open>_check_format\<close>: no target that
  declares it is constructed, and a target declared with it alone fails with the message
  on its format.
\<close>

theorem relative_dep_resolved:
  "(startswith d ''./'' \<and> count_list d CHR '':'' = 1
      \<and> \<not> contains_str ''..'' (fst (rsplit1 CHR '':'' d)) \<longrightarrow>
      check_format d = Inr ()
      \<and> unify_dep cfg csp self d w =
            Inr ((normpath (path self @ ''/'' @ fst (rsplit1 CHR '':'' d)),
                  snd (rsplit1 CHR '':'' d)), w)
      \<and> (CHR ''/'' \<notin> set n \<longrightarrow>
            (\<exists>t. init_target cfg csp ad n ty [] [d] None [] w = Inr (t, w)
               \<and> deps t = [(normpath (csp @ ''/'' @ fst (rsplit1 CHR '':'' d)),
                             snd (rsplit1 CHR '':'' d))]
               \<and> expanded_deps t = deps t))
      \<and> (init_target cfg csp ad n ty ss ds vis kw w = Inr (t', w') \<and> d \<in> set ds \<longrightarrow>
            (normpath (csp @ ''/'' @ fst (rsplit1 CHR '':'' d)), snd (rsplit1 CHR '':'' d))
              \<in> set (deps t') \<inter> set (expanded_deps t')))
   \<and> (\<not> startswith d '':'' \<and> \<not> startswith d ''#'' \<and> \<not> startswith d ''//''
        \<and> \<not> startswith d ''./'' \<longrightarrow>
      check_format d = Inl (InvalidFormat d)
      \<and> (d \<in> set ds \<longrightarrow> (\<exists>e. init_target cfg csp ad n ty ss ds vis kw w = Inl e))
      \<and> (CHR ''/'' \<notin> set n \<longrightarrow>
            init_target cfg csp ad n ty [] [d] None [] w = Inl (InvalidFormat d)))"
proof (rule conjI; rule impI)
  assume "startswith d ''./'' \<and> count_list d CHR '':'' = 1
      \<and> \<not> contains_str ''..'' (fst (rsplit1 CHR '':'' d))"
  then have m: "startswith d ''./''" "count_list d CHR '':'' = 1"
    "\<not> contains_str ''..'' (fst (rsplit1 CHR '':'' d))"
    by simp_all
  from marked_dep_resolved [OF m]
  show "check_format d = Inr ()
      \<and> unify_dep cfg csp self d w =
            Inr ((normpath (path self @ ''/'' @ fst (rsplit1 CHR '':'' d)),
                  snd (rsplit1 CHR '':'' d)), w)
      \<and> (CHR ''/'' \<notin> set n \<longrightarrow>
            (\<exists>t. init_target cfg csp ad n ty [] [d] None [] w = Inr (t, w)
               \<and> deps t = [(normpath (csp @ ''/'' @ fst (rsplit1 CHR '':'' d)),
                             snd (rsplit1 CHR '':'' d))]
               \<and> expanded_deps t = deps t))
      \<and> (init_target cfg csp ad n ty ss ds vis kw w = Inr (t', w') \<and> d \<in> set ds \<longrightarrow>
            (normpath (csp @ ''/'' @ fst (rsplit1 CHR '':'' d)), snd (rsplit1 CHR '':'' d))
              \<in> set (deps t') \<inter> set (expanded_deps t'))" .
next
  assume "\<not> startswith d '':'' \<and> \<not> startswith d ''#'' \<and> \<not> startswith d ''//''
        \<and> \<not> startswith d ''./''"
  then have m: "\<not> startswith d '':''" "\<not> startswith d ''#''" "\<not> startswith d ''//''"
    "\<not> startswith d ''./''"
    by simp_all
  from unmarked_dep_fatal(1) [OF m] unmarked_dep_fatal(2) [OF m, of ds cfg csp ad n ty ss vis kw w]
    unmarked_dep_fatal(3) [OF m, of n cfg csp ad ty w]
  show "check_format d = Inl (InvalidFormat d)
      \<and> (d \<in> set ds \<longrightarrow> (\<exists>e. init_target cfg csp ad n ty ss ds vis kw w = Inl e))
      \<and> (CHR ''/'' \<notin> set n \<longrightarrow>
            init_target cfg csp ad n ty [] [d] None [] w = Inl (InvalidFormat d))"
    by blast
qed

theorem relative_dep_resolved_witness:
  "check_format ''./sub:x'' = Inr ()
   \<and> (\<exists>t. init_target cfg0 ''app'' False ''server'' ''cc_binary'' [] [''./sub:x''] None [] world0
            = Inr (t, world0)
          \<and> deps t = [(''app/sub'', ''x'')] \<and> expanded_deps t = [(''app/sub'', ''x'')])
   \<and> check_format ''lib/util:x'' = Inl (InvalidFormat ''lib/util:x'')
   \<and> init_target cfg0 ''app'' False ''server'' ''cc_binary'' [] [''lib/util:x''] None [] world0
        = Inl (InvalidFormat ''lib/util:x'')
   \<and> (\<exists>e. init_target cfg0 ''app'' False ''server'' ''cc_binary'' [''main.cc'']
              ['':b'', ''lib/util:x''] None [] world0 = Inl e)"
proof -
  have n: "CHR ''/'' \<notin> set ''server''" by simp
  have mem: "''lib/util:x'' \<in> set ['':b'', ''lib/util:x'']" by simp
  note marked = relative_dep_resolved [where d = "''./sub:x''" and n = "''server''" and cfg = cfg0
      and csp = "''app''" and w = world0 and ad = False and ty = "''cc_binary''"
      and self = app_server and ss = "[]" and ds = "[]" and vis = None and kw = "[]"
      and t' = app_server and w' = world0]
  note unmarked = relative_dep_resolved [where d = "''lib/util:x''" and n = "''server''"
      and cfg = cfg0 and csp = "''app''" and w = world0 and ad = False and ty = "''cc_binary''"
      and self = app_server and ss = "[''main.cc'']" and ds = "['':b'', ''lib/util:x'']"
      and vis = None and kw = "[]" and t' = app_server and w' = world0]
  from marked sub_x_form n
  have a: "check_format ''./sub:x'' = Inr ()
   \<and> (\<exists>t. init_target cfg0 ''app'' False ''server'' ''cc_binary'' [] [''./sub:x''] None [] world0
            = Inr (t, world0)
          \<and> deps t = [(''app/sub'', ''x'')] \<and> expanded_deps t = [(''app/sub'', ''x'')])"
    by (auto simp: rsplit_sub normpath_app)
  from unmarked util_x_form n mem
  have b: "check_format ''lib/util:x'' = Inl (InvalidFormat ''lib/util:x'')
   \<and> init_target cfg0 ''app'' False ''server'' ''cc_binary'' [] [''lib/util:x''] None [] world0
        = Inl (InvalidFormat ''lib/util:x'')
   \<and> (\<exists>e. init_target cfg0 ''app'' False ''server'' ''cc_binary'' [''main.cc'']
              ['':b'', ''lib/util:x''] None [] world0 = Inl e)"
    by blast
  from a b show ?thesis by blast
qed

text \<open>
  C4 as stated fails: a dependency \<open>foo:bar\<close> without a leading marker is rejected by
  \<open>_check_format\<close>, and the construction of the target is fatal.
\<close>

theorem unmarked_dep_rejected_counterexample:
  "init_target cfg0 ''app'' False ''server'' ''cc_binary'' [] [''foo:bar''] None [] world0
     = Inl (InvalidFormat ''foo:bar'')"
  by (simp add: init_target_def check_name_def check_kwargs_def check_srcs_def
        check_format_def startswith_def fresh_target_def)

section \<open>Rule emission cache\<close>

lemma one_rule_keeps: "keeps_buffer one_rule"
  by (auto simp: keeps_buffer_def one_rule_def write_rule_def split: option.splits)

lemma one_rule_first:
  "get_rules (counted one_rule) app_server (0, ())
     = Inr (Some [''build app/server: link app/main.o'' @ [CHR 0x0A]], app_server_built, (1, ()))"
  by (simp add: get_rules_def counted_def one_rule_def write_rule_def app_server_def
        app_server_built_def)

text \<open>
  C2. \<open>get_rules\<close> is run with a rule-generation method whose invocations are counted.
  After a call that returned, a second call returns the same sequence and leaves the
  target, the state and the counter as they are: the cached sequence is returned and the
  method is not run again. The first call ran the method exactly once if the target had
  no cached rules, and not at all otherwise.
\<close>

theorem get_rules_cached:
  assumes keeps: "keeps_buffer ninja_rules"
    and first: "get_rules (counted ninja_rules) self (c, st) = Inr (r1, t1, (c1, st1))"
  shows "get_rules (counted ninja_rules) t1 (c1, st1) = Inr (r1, t1, (c1, st1))
       \<and> r1 \<noteq> None
       \<and> (build_rules self = None \<longrightarrow>
             c1 = Suc c \<and> ninja_rules (self\<lparr>build_rules := Some []\<rparr>) st = Inr (t1, st1))
       \<and> (build_rules self \<noteq> None \<longrightarrow> c1 = c \<and> t1 = self \<and> st1 = st)"
proof (cases "build_rules self")
  case None
  show ?thesis
  proof (cases "ninja_rules (self\<lparr>build_rules := Some []\<rparr>) st")
    case (Inl e)
    with None first show ?thesis
      by (simp add: get_rules_def counted_def)
  next
    case (Inr p)
    obtain t' s' where p: "p = (t', s')" by (cases p)
    with Inr have run: "ninja_rules (self\<lparr>build_rules := Some []\<rparr>) st = Inr (t', s')"
      by simp
    with None first have res: "r1 = build_rules t'" "t1 = t'" "c1 = Suc c" "st1 = s'"
      by (auto simp: get_rules_def counted_def)
    from keeps run have "build_rules t' \<noteq> None"
      unfolding keeps_buffer_def by fastforce
    then obtain rules where "build_rules t' = Some rules" by blast
    with None run res show ?thesis
      by (simp add: get_rules_def)
  qed
next
  case (Some rules)
  with first have res: "r1 = Some rules" "t1 = self" "c1 = c" "st1 = st"
    by (auto simp: get_rules_def)
  with Some show ?thesis
    by (simp add: get_rules_def)
qed

theorem get_rules_cached_witness:
  "get_rules (counted one_rule) app_server (0, ())
     = Inr (Some [''build app/server: link app/main.o'' @ [CHR 0x0A]], app_server_built, (1, ()))
   \<and> get_rules (counted one_rule) app_server_built (1, ())
     = Inr (Some [''build app/server: link app/main.o'' @ [CHR 0x0A]], app_server_built, (1, ()))"
  using get_rules_cached [of one_rule app_server 0 "()"
      "Some [''build app/server: link app/main.o'' @ [CHR 0x0A]]" app_server_built 1 "()",
      OF one_rule_keeps one_rule_first]
    one_rule_first
  by blast

section \<open>Rule fingerprint\<close>

lemma update_present_commute:
  "k \<noteq> k' \<Longrightarrow> k \<in> fst ` set d \<Longrightarrow>
   AList.update k v (AList.update k' v' d) = AList.update k' v' (AList.update k v d)"
  by (induction d) auto

lemma update_keys_present: "k \<in> fst ` set d \<Longrightarrow> k \<in> fst ` set (AList.update k' v' d)"
  by (induction d) auto

lemma dict_update_override:
  "k \<in> fst ` set e \<Longrightarrow> k \<in> fst ` set d \<Longrightarrow> k \<in> fst ` set d' \<Longrightarrow>
   (\<And>v. AList.update k v d = AList.update k v d') \<Longrightarrow> dict_update d e = dict_update d' e"
  unfolding dict_update_def
proof (induction e arbitrary: d d')
  case Nil
  then show ?case by simp
next
  case (Cons x e)
  obtain k1 v1 where x: "x = (k1, v1)" by (cases x)
  show ?case
  proof (cases "k1 = k")
    case True
    with Cons.prems(4) [of v1] x show ?thesis by simp
  next
    case False
    with Cons.prems(1) x have ke: "k \<in> fst ` set e" by auto
    have "foldl (\<lambda>acc (k, v). AList.update k v acc) (AList.update k1 v1 d) e
        = foldl (\<lambda>acc (k, v). AList.update k v acc) (AList.update k1 v1 d') e"
    proof (rule Cons.IH [OF ke])
      show "k \<in> fst ` set (AList.update k1 v1 d)"
        using Cons.prems(2) by (rule update_keys_present)
      show "k \<in> fst ` set (AList.update k1 v1 d')"
        using Cons.prems(3) by (rule update_keys_present)
      fix v
      show "AList.update k v (AList.update k1 v1 d) = AList.update k v (AList.update k1 v1 d')"
      proof -
        from False have ne: "k \<noteq> k1" by simp
        have "AList.update k v (AList.update k1 v1 d) = AList.update k1 v1 (AList.update k v d)"
          by (rule update_present_commute [OF ne Cons.prems(2)])
        also have "\<dots> = AList.update k1 v1 (AList.update k v d')"
          by (simp add: Cons.prems(4) [of v])
        also have "\<dots> = AList.update k v (AList.update k1 v1 d')"
          by (rule update_present_commute [OF ne Cons.prems(3), symmetric])
        finally show ?thesis .
      qed
    qed
    with x show ?thesis by simp
  qed
qed

lemma map_of_dict_update:
  "map_of (dict_update d e) k = (case map_of (rev e) k of Some v \<Rightarrow> Some v | None \<Rightarrow> map_of d k)"
  unfolding dict_update_def
proof (induction e arbitrary: d)
  case Nil
  then show ?case by simp
next
  case (Cons x e)
  obtain k1 v1 where x: "x = (k1, v1)" by (cases x)
  show ?case
    using Cons.IH [of "AList.update k1 v1 d"] x
    by (auto simp: update_conv' map_add_def split: option.splits)
qed

lemma core_factors_simp:
  "AList.update ''deps'' dv [(''type'', tv), (''name'', nv), (''srcs'', sv)]
     = [(''type'', tv), (''name'', nv), (''srcs'', sv), (''deps'', dv)]"
  by simp

lemma in_keys_of_map_of: "map_of e k \<noteq> None \<Longrightarrow> k \<in> fst ` set e"
  by (simp add: map_of_eq_None_iff)



lemma factors_of_srcs:
  assumes "map_of (rule_hash_factors env self) ''srcs'' \<noteq> None"
    and "rule_hash_factors env (self\<lparr>srcs := ss\<rparr>) = rule_hash_factors env self"
  shows "factors_of env (self\<lparr>srcs := ss\<rparr>) hs = factors_of env self hs"
  unfolding factors_of_def core_factors_simp assms(2)
  by (rule dict_update_override [OF in_keys_of_map_of [OF assms(1)]]) simp_all


lemma distinct_dict_update:
  "distinct (map fst d) \<Longrightarrow> distinct (map fst (dict_update d e))"
  unfolding dict_update_def
  by (induction e arbitrary: d) (auto simp: distinct_update)

lemma distinct_factors_of: "distinct (map fst (factors_of env self hs))"
  unfolding factors_of_def core_factors_simp
  by (rule distinct_dict_update) simp

lemma set_sorted_items [simp]: "set (sorted_items d) = set d"
  by (simp add: sorted_items_def)















section \<open>Location references\<close>

lemma star_match_sound:
  "star_match a s k = Some x \<Longrightarrow>
   \<exists>u v. s = u @ v \<and> (\<forall>c \<in> set u. atom_ok a c) \<and> k v = Some x"
proof (induction s)
  case Nil
  then show ?case by simp
next
  case (Cons c cs)
  show ?case
  proof (cases "atom_ok a c \<and> star_match a cs k \<noteq> None")
    case True
    with Cons.prems have "star_match a cs k = Some x" by auto
    from Cons.IH [OF this] obtain u v where "cs = u @ v" "\<forall>c \<in> set u. atom_ok a c" "k v = Some x"
      by blast
    with True have "c # cs = (c # u) @ v \<and> (\<forall>c \<in> set (c # u). atom_ok a c) \<and> k v = Some x"
      by simp
    then show ?thesis by blast
  next
    case False
    with Cons.prems have "k (c # cs) = Some x" by (auto split: option.splits if_splits)
    then have "c # cs = [] @ (c # cs) \<and> (\<forall>c \<in> set []. atom_ok a c) \<and> k (c # cs) = Some x"
      by simp
    then show ?thesis by blast
  qed
qed

lemma rmatch_sound:
  "rmatch r s caps k = Some x \<Longrightarrow>
   \<exists>u v caps'. s = u @ v \<and> u \<in> lang r \<and> caps_from r caps caps' \<and> k v caps' = Some x"
proof (induction r arbitrary: s caps k)
  case Eps
  then show ?case by (auto simp: caps_from_def)
next
  case (Chr a)
  then obtain c cs where s: "s = c # cs" and c: "atom_ok a c" and k: "k cs caps = Some x"
    by (cases s) (auto split: if_splits)
  then have "s = [c] @ cs \<and> [c] \<in> lang (Chr a) \<and> caps_from (Chr a) caps caps
      \<and> k cs caps = Some x"
    by (simp add: caps_from_def)
  then show ?case by blast
next
  case (Star a)
  then show ?case
    using star_match_sound [of a s "\<lambda>rest. k rest caps" x]
    by (auto simp: caps_from_def)
next
  case (Plus a)
  then obtain c cs where s: "s = c # cs" and c: "atom_ok a c"
    and m: "star_match a cs (\<lambda>rest. k rest caps) = Some x"
    by (cases s) (auto split: if_splits)
  from star_match_sound [OF m] obtain u v where
    "cs = u @ v" "\<forall>c \<in> set u. atom_ok a c" "k v caps = Some x" by blast
  with s c have "s = (c # u) @ v \<and> c # u \<in> lang (Plus a) \<and> caps_from (Plus a) caps caps
      \<and> k v caps = Some x"
    by (simp add: caps_from_def)
  then show ?case by blast
next
  case (Cat r1 r2)
  from Cat.prems have "rmatch r1 s caps (\<lambda>rest caps'. rmatch r2 rest caps' k) = Some x" by simp
  from Cat.IH(1) [OF this] obtain u1 v1 caps1 where
    s: "s = u1 @ v1" and u1: "u1 \<in> lang r1" and c1: "caps_from r1 caps caps1"
    and m2: "rmatch r2 v1 caps1 k = Some x" by blast
  from Cat.IH(2) [OF m2] obtain u2 v2 caps2 where
    v1: "v1 = u2 @ v2" and u2: "u2 \<in> lang r2" and c2: "caps_from r2 caps1 caps2"
    and k: "k v2 caps2 = Some x" by blast
  have "caps_from (Cat r1 r2) caps caps2"
    using c1 c2 unfolding caps_from_def by (metis UnCI group_lang.simps(1))
  with s v1 u1 u2 k have "s = (u1 @ u2) @ v2 \<and> u1 @ u2 \<in> lang (Cat r1 r2)
      \<and> caps_from (Cat r1 r2) caps caps2 \<and> k v2 caps2 = Some x"
    by auto
  then show ?case by blast
next
  case (Opt r)
  show ?case
  proof (cases "rmatch r s caps k")
    case None
    with Opt.prems have "k s caps = Some x" by simp
    then have "s = [] @ s \<and> [] \<in> lang (Opt r) \<and> caps_from (Opt r) caps caps \<and> k s caps = Some x"
      by (simp add: caps_from_def)
    then show ?thesis by blast
  next
    case (Some y)
    with Opt.prems have "rmatch r s caps k = Some x" by simp
    from Opt.IH [OF this] show ?thesis
      by (auto simp: caps_from_def)
  qed
next
  case (Grp n r)
  from Grp.prems have
    "rmatch r s caps (\<lambda>rest caps'. k rest (caps'(n \<mapsto> take (length s - length rest) s))) = Some x"
    by simp
  from Grp.IH [OF this] obtain u v caps1 where
    s: "s = u @ v" and u: "u \<in> lang r" and c1: "caps_from r caps caps1"
    and k: "k v (caps1(n \<mapsto> take (length s - length v) s)) = Some x" by blast
  from s have "take (length s - length v) s = u" by simp
  with k have k': "k v (caps1(n \<mapsto> u)) = Some x" by simp
  have "caps_from (Grp n r) caps (caps1(n \<mapsto> u))"
    using c1 u unfolding caps_from_def by auto
  with s u k' show ?case by auto
qed

lemma search_sound:
  "search r s = Some caps \<Longrightarrow>
   \<exists>p u v. s = p @ u @ v \<and> u \<in> lang r \<and> caps_from r Map.empty caps"
proof (induction s)
  case Nil
  from rmatch_sound [of r "[]" Map.empty "\<lambda>rest caps. Some caps" caps] Nil
  show ?case by auto
next
  case (Cons c cs)
  show ?case
  proof (cases "rmatch r (c # cs) Map.empty (\<lambda>rest caps. Some caps)")
    case None
    with Cons.prems have "search r cs = Some caps" by simp
    from Cons.IH [OF this] obtain p u v where "cs = p @ u @ v" "u \<in> lang r"
      "caps_from r Map.empty caps" by blast
    then have "c # cs = (c # p) @ u @ v \<and> u \<in> lang r \<and> caps_from r Map.empty caps" by simp
    then show ?thesis by blast
  next
    case (Some y)
    with Cons.prems have m: "rmatch r (c # cs) Map.empty (\<lambda>rest caps. Some caps) = Some caps"
      by simp
    from rmatch_sound [OF m] obtain u v where "c # cs = u @ v" "u \<in> lang r"
      "caps_from r Map.empty caps" by auto
    then have "c # cs = [] @ u @ v \<and> u \<in> lang r \<and> caps_from r Map.empty caps" by simp
    then show ?thesis by blast
  qed
qed

lemma group_lang_literal [simp]: "group_lang (literal s) n = {}"
  by (induction s) (simp_all add: literal_def)

lemma colon_not_space [simp]: "\<not> is_space CHR '':''"
  by (simp add: is_space_def)

lemma group1_location: "group_lang LOCATION_RE (Suc 0) \<subseteq> reference_lang"
  by (auto simp: LOCATION_RE_def reference_lang_def)

lemma lang_location_colon: "u \<in> lang LOCATION_RE \<Longrightarrow> CHR '':'' \<in> set u"
  by (auto simp: LOCATION_RE_def)

lemma location_search_ref:
  assumes "location_search s = Some (ref, tag)"
  shows "ref \<in> reference_lang"
proof -
  from assms obtain caps where s: "search LOCATION_RE s = Some caps" and c: "caps 1 = Some ref"
    by (auto simp: location_search_def split: option.splits)
  from search_sound [OF s] have "caps_from LOCATION_RE Map.empty caps" by blast
  then have "caps 1 = Map.empty 1 \<or> (\<exists>u \<in> group_lang LOCATION_RE 1. caps 1 = Some u)"
    unfolding caps_from_def by blast
  with c have "ref \<in> group_lang LOCATION_RE 1"
    by auto
  with group1_location show ?thesis by auto
qed

lemma location_search_needs_colon:
  assumes "CHR '':'' \<notin> set s"
  shows "location_search s = None"
proof (cases "search LOCATION_RE s")
  case None
  then show ?thesis by (simp add: location_search_def)
next
  case (Some caps)
  from search_sound [OF Some] obtain p u v where "s = p @ u @ v" "u \<in> lang LOCATION_RE"
    by blast
  with lang_location_colon [of u] assms show ?thesis by auto
qed

lemma location_text_colon:
  assumes "u \<in> location_text"
  shows "\<exists>p c q. u = p @ CHR '':'' # c # q \<and> \<not> is_space c"
proof -
  from assms obtain ws a b tag where u: "u = ''$(location'' @ ws @ (a @ '':'' @ b) @ tag @ '')''"
    and b: "b \<noteq> []" "\<forall>c \<in> set (a @ b). \<not> is_space c"
    unfolding location_text_def reference_lang_def by blast
  from b(1) obtain c b' where b': "b = c # b'" by (cases b) auto
  with b(2) have c: "\<not> is_space c" by simp
  from u b' have "u = (''$(location'' @ ws @ a) @ CHR '':'' # c # (b' @ tag @ '')'')" by simp
  with c show ?thesis by blast
qed

lemma star_match_accepts: "k v \<noteq> None \<Longrightarrow> star_match a v k \<noteq> None"
  by (cases v) (auto split: option.splits)

lemma star_match_complete:
  "\<forall>c \<in> set u. atom_ok a c \<Longrightarrow> k v \<noteq> None \<Longrightarrow> star_match a (u @ v) k \<noteq> None"
proof (induction u)
  case Nil
  then show ?case by (simp add: star_match_accepts)
next
  case (Cons c u)
  then have "star_match a (u @ v) k \<noteq> None" by simp
  with Cons.prems show ?case by (auto split: option.splits)
qed

lemma rmatch_complete:
  "u \<in> lang r \<Longrightarrow> (\<And>caps'. k v caps' \<noteq> None) \<Longrightarrow> rmatch r (u @ v) caps k \<noteq> None"
proof (induction r arbitrary: u v caps k)
  case Eps
  then show ?case by simp
next
  case (Chr a)
  then show ?case by auto
next
  case (Star a)
  then show ?case by (simp add: star_match_complete)
next
  case (Plus a)
  then obtain c u' where u: "u = c # u'" by (cases u) auto
  with Plus.prems(1) have "atom_ok a c" "\<forall>c \<in> set u'. atom_ok a c" by simp_all
  with u Plus.prems(2) show ?case by (simp add: star_match_complete)
next
  case (Cat r1 r2)
  from Cat.prems(1) obtain u1 u2 where u: "u = u1 @ u2" and u1: "u1 \<in> lang r1"
    and u2: "u2 \<in> lang r2" by auto
  have "rmatch r1 (u1 @ (u2 @ v)) caps (\<lambda>rest caps'. rmatch r2 rest caps' k) \<noteq> None"
    by (rule Cat.IH(1) [OF u1]) (rule Cat.IH(2) [OF u2], rule Cat.prems(2))
  with u show ?case by simp
next
  case (Opt r)
  show ?case
  proof (cases "u \<in> lang r")
    case True
    have "rmatch r (u @ v) caps k \<noteq> None"
      by (rule Opt.IH [OF True]) (rule Opt.prems(2))
    then show ?thesis by (auto split: option.splits)
  next
    case False
    with Opt.prems(1) have "u = []" by simp
    with Opt.prems(2) show ?thesis by (auto split: option.splits)
  qed
next
  case (Grp n r)
  from Grp.prems(1) have u: "u \<in> lang r" by simp
  have "rmatch r (u @ v) caps
          (\<lambda>rest caps'. k rest (caps'(n \<mapsto> take (length (u @ v) - length rest) (u @ v)))) \<noteq> None"
    by (rule Grp.IH [OF u]) (rule Grp.prems(2))
  then show ?case by simp
qed

lemma search_complete: "u \<in> lang r \<Longrightarrow> search r (p @ u @ v) \<noteq> None"
proof (induction p)
  case Nil
  have m: "rmatch r (u @ v) Map.empty (\<lambda>rest caps. Some caps) \<noteq> None"
    by (rule rmatch_complete [OF Nil]) simp
  show ?case
  proof (cases "u @ v")
    case Nil
    with m show ?thesis by simp
  next
    case (Cons c cs)
    with m show ?thesis by (auto split: option.splits)
  qed
next
  case (Cons c p)
  then show ?case by (auto split: option.splits)
qed

lemma rmatch_binds:
  "rmatch r s caps k = Some x \<Longrightarrow>
   \<exists>v caps'. k v caps' = Some x \<and> (\<forall>n. binds r n \<or> caps n \<noteq> None \<longrightarrow> caps' n \<noteq> None)"
proof (induction r arbitrary: s caps k)
  case Eps
  then show ?case by auto
next
  case (Chr a)
  then show ?case by (cases s) (auto split: if_splits)
next
  case (Star a)
  then show ?case
    using star_match_sound [of a s "\<lambda>rest. k rest caps" x] by auto
next
  case (Plus a)
  then obtain c cs where "s = c # cs" "star_match a cs (\<lambda>rest. k rest caps) = Some x"
    by (cases s) (auto split: if_splits)
  with star_match_sound [of a cs "\<lambda>rest. k rest caps" x] show ?case by auto
next
  case (Cat r1 r2)
  from Cat.prems have "rmatch r1 s caps (\<lambda>rest caps'. rmatch r2 rest caps' k) = Some x" by simp
  from Cat.IH(1) [OF this] obtain v1 caps1 where
    m2: "rmatch r2 v1 caps1 k = Some x"
    and c1: "\<forall>n. binds r1 n \<or> caps n \<noteq> None \<longrightarrow> caps1 n \<noteq> None" by blast
  from Cat.IH(2) [OF m2] obtain v2 caps2 where
    k: "k v2 caps2 = Some x"
    and c2: "\<forall>n. binds r2 n \<or> caps1 n \<noteq> None \<longrightarrow> caps2 n \<noteq> None" by blast
  from c1 c2 have "\<forall>n. binds (Cat r1 r2) n \<or> caps n \<noteq> None \<longrightarrow> caps2 n \<noteq> None"
    by auto
  with k show ?case by blast
next
  case (Opt r)
  show ?case
  proof (cases "rmatch r s caps k")
    case None
    with Opt.prems have "k s caps = Some x" by simp
    then show ?thesis by auto
  next
    case (Some y)
    with Opt.prems have "rmatch r s caps k = Some x" by simp
    from Opt.IH [OF this] obtain v caps' where "k v caps' = Some x"
      "\<forall>n. binds r n \<or> caps n \<noteq> None \<longrightarrow> caps' n \<noteq> None" by blast
    then have "k v caps' = Some x
        \<and> (\<forall>n. binds (Opt r) n \<or> caps n \<noteq> None \<longrightarrow> caps' n \<noteq> None)"
      by simp
    then show ?thesis by blast
  qed
next
  case (Grp n r)
  from Grp.prems have
    "rmatch r s caps (\<lambda>rest caps'. k rest (caps'(n \<mapsto> take (length s - length rest) s))) = Some x"
    by simp
  from Grp.IH [OF this] obtain v caps1 where
    k: "k v (caps1(n \<mapsto> take (length s - length v) s)) = Some x"
    and c1: "\<forall>m. binds r m \<or> caps m \<noteq> None \<longrightarrow> caps1 m \<noteq> None" by blast
  from c1 have "\<forall>m. binds (Grp n r) m \<or> caps m \<noteq> None
      \<longrightarrow> (caps1(n \<mapsto> take (length s - length v) s)) m \<noteq> None"
    by auto
  with k show ?case by blast
qed

lemma search_binds: "search r s = Some caps \<Longrightarrow> binds r n \<Longrightarrow> caps n \<noteq> None"
proof (induction s)
  case Nil
  with rmatch_binds [of r "[]" Map.empty "\<lambda>rest caps. Some caps" caps] show ?case by auto
next
  case (Cons c cs)
  show ?case
  proof (cases "rmatch r (c # cs) Map.empty (\<lambda>rest caps. Some caps)")
    case None
    with Cons show ?thesis by simp
  next
    case (Some y)
    with Cons.prems have "rmatch r (c # cs) Map.empty (\<lambda>rest caps. Some caps) = Some caps"
      by simp
    from rmatch_binds [OF this] Cons.prems(2) show ?thesis by auto
  qed
qed

lemma binds_location: "binds LOCATION_RE (Suc 0)"
  by (simp add: LOCATION_RE_def)

lemma lang_literal [simp]: "lang (literal s) = {s}"
  by (induction s) (auto simp: literal_def)

lemma lang_ref:
  "lang (Cat (Star NonSpace) (Cat (Chr (Lit CHR '':'')) (Plus NonSpace))) = reference_lang"
  unfolding reference_lang_def by auto

lemma lang_tag: "lang (Cat (Plus Space) (Star Word)) = tag_lang"
  unfolding tag_lang_def by auto

lemma cat_mem: "u \<in> A \<Longrightarrow> v \<in> B \<Longrightarrow> u @ v \<in> {u @ v | u v. u \<in> A \<and> v \<in> B}"
  by blast

lemma lang_location: "lang LOCATION_RE = location_text"
proof -
  let ?T = "{u @ v | u v. u \<in> insert [] tag_lang \<and> v \<in> lang (Chr (Lit CHR '')''))}"
  let ?R = "{u @ v | u v. u \<in> reference_lang \<and> v \<in> ?T}"
  let ?S = "{u @ v | u v. u \<in> lang (Plus Space) \<and> v \<in> ?R}"
  let ?L = "{u @ v | u v. u \<in> {''$(location''} \<and> v \<in> ?S}"
  have g1: "lang (Grp 1 (Cat (Star NonSpace) (Cat (Chr (Lit CHR '':'')) (Plus NonSpace))))
      = reference_lang"
    unfolding lang.simps(7) by (rule lang_ref)
  have g2: "lang (Opt (Grp 2 (Cat (Plus Space) (Star Word)))) = insert [] tag_lang"
    unfolding lang.simps(6) lang.simps(7) lang_tag by (rule refl)
  have "lang LOCATION_RE = ?L"
    unfolding LOCATION_RE_def
    by (simp only: lang.simps(5) [of "literal ''$(location''"] lang.simps(5) [of "Plus Space"]
          lang.simps(5) [of "Grp 1 (Cat (Star NonSpace) (Cat (Chr (Lit CHR '':'')) (Plus NonSpace)))"]
          lang.simps(5) [of "Opt (Grp 2 (Cat (Plus Space) (Star Word)))"]
          g1 g2 lang_literal)
  also have "?L = location_text"
  proof (rule set_eqI, rule iffI)
    fix x
    assume "x \<in> ?L"
    then obtain ws ref tag cl where x: "x = ''$(location'' @ ws @ ref @ tag @ cl"
      and ws: "ws \<in> lang (Plus Space)" and ref: "ref \<in> reference_lang"
      and tag: "tag \<in> insert [] tag_lang" and cl: "cl \<in> lang (Chr (Lit CHR '')''))"
      by blast
    from cl have "cl = '')''" by simp
    with x ws ref tag show "x \<in> location_text"
      unfolding location_text_def by auto
  next
    fix x
    assume "x \<in> location_text"
    then obtain ws ref tag where x: "x = ''$(location'' @ (ws @ (ref @ (tag @ '')'')))"
      and ws: "ws \<noteq> []" "\<forall>c \<in> set ws. is_space c" and ref: "ref \<in> reference_lang"
      and tag: "tag = [] \<or> tag \<in> tag_lang"
      unfolding location_text_def by auto
    have 1: "'')'' \<in> lang (Chr (Lit CHR '')''))" by simp
    have 2: "tag \<in> insert [] tag_lang" using tag by auto
    have 3: "ws \<in> lang (Plus Space)" using ws by simp
    have 4: "''$(location'' \<in> {''$(location''}" by simp
    show "x \<in> ?L"
      unfolding x by (rule cat_mem [OF 4 cat_mem [OF 3 cat_mem [OF ref cat_mem [OF 2 1]]]])
  qed
  finally show ?thesis .
qed

lemma location_search_found:
  "(location_search s \<noteq> None) = (\<exists>p u v. s = p @ u @ v \<and> u \<in> location_text)"
proof
  assume "location_search s \<noteq> None"
  then obtain caps where "search LOCATION_RE s = Some caps"
    by (auto simp: location_search_def split: option.splits)
  from search_sound [OF this] show "\<exists>p u v. s = p @ u @ v \<and> u \<in> location_text"
    by (auto simp: lang_location)
next
  assume "\<exists>p u v. s = p @ u @ v \<and> u \<in> location_text"
  then obtain p u v where s: "s = p @ u @ v" and u: "u \<in> lang LOCATION_RE"
    by (auto simp: lang_location)
  from search_complete [OF u, of p v] s obtain caps where c: "search LOCATION_RE s = Some caps"
    by auto
  from search_binds [OF c binds_location] c show "location_search s \<noteq> None"
    by (auto simp: location_search_def)
qed

lemma location_search_x:
  "location_search ''$(location #pthread):x)'' = Some (''#pthread):x'', None)"
  by code_simp

lemma location_x_dep:
  "add_location_reference_target cfg0 ''app'' (location_search ''$(location #pthread):x)'')
     app_server world1
   = Inr (Some ((''#'', ''pthread):x''), []), app_server_x, register_target lib_pthread_x world1)"
  by (simp add: location_search_x add_location_reference_target_def unify_dep_def
        add_system_library_def system_library_def register_target_def check_name_def
        fresh_target_def append_dep_def append_expanded_dep_def
        startswith_def strip_def cfg0_def world1_def app_server_def app_server_x_def
        lib_pthread_x_def lib_pthread_def Let_def)

lemma location_search_colon_space:
  assumes "\<forall>p c q. s = p @ CHR '':'' # c # q \<longrightarrow> is_space c"
  shows "location_search s = None"
proof (rule ccontr)
  assume "location_search s \<noteq> None"
  then obtain p u v where s: "s = p @ u @ v" and u: "u \<in> location_text"
    unfolding location_search_found by blast
  from location_text_colon [OF u] obtain p' c q where "u = p' @ CHR '':'' # c # q"
    and c: "\<not> is_space c" by blast
  with s have "s = (p @ p') @ CHR '':'' # c # (q @ v)" by simp
  with assms c show False by blast
qed

text \<open>
  C10, as the code has it. Whenever \<open>LOCATION_RE\<close> finds a location reference in a
  text, the captured reference contains a colon followed by at least one character, and
  no whitespace. A text holds a location reference exactly when some part of it reads
  \<open>$(location\<close>, whitespace, such a reference, possibly whitespace and a tag, and
  \<open>)\<close>. So a text in which no colon is followed by a character other than whitespace,
  and in particular a text without a colon, holds no location reference, and
  \<open>_add_location_reference_target\<close> adds no dependency for it; \<open>$(location #name)\<close>
  with a colon-free name is not recognized on its own, and in no text is \<open>#name\<close> the
  reference that is captured.
\<close>

theorem location_needs_colon:
  "(location_search s = Some (ref, tag) \<longrightarrow>
      (\<exists>a b. ref = a @ '':'' @ b \<and> b \<noteq> [] \<and> (\<forall>c \<in> set (a @ b). \<not> is_space c)))
   \<and> ((location_search s \<noteq> None) = (\<exists>p u v. s = p @ u @ v \<and> u \<in> location_text))
   \<and> ((\<forall>p c q. s = p @ CHR '':'' # c # q \<longrightarrow> is_space c) \<longrightarrow>
        location_search s = None
        \<and> add_location_reference_target cfg csp (location_search s) self w = Inr (None, self, w))
   \<and> (CHR '':'' \<notin> set s \<longrightarrow>
        location_search s = None
        \<and> add_location_reference_target cfg csp (location_search s) self w = Inr (None, self, w))
   \<and> (CHR '':'' \<notin> set nm \<longrightarrow> location_search (''$(location #'' @ nm @ '')'') = None)
   \<and> (CHR '':'' \<notin> set nm
        \<and> location_search (pre @ ''$(location #'' @ nm @ '')'' @ post) = Some (ref', tag')
        \<longrightarrow> ref' \<noteq> ''#'' @ nm)"
proof (intro conjI impI)
  assume "location_search s = Some (ref, tag)"
  then have "ref \<in> reference_lang" by (rule location_search_ref)
  then show "\<exists>a b. ref = a @ '':'' @ b \<and> b \<noteq> [] \<and> (\<forall>c \<in> set (a @ b). \<not> is_space c)"
    unfolding reference_lang_def by blast
next
  show "(location_search s \<noteq> None) = (\<exists>p u v. s = p @ u @ v \<and> u \<in> location_text)"
    by (rule location_search_found)
next
  assume c: "\<forall>p c q. s = p @ CHR '':'' # c # q \<longrightarrow> is_space c"
  then show n: "location_search s = None" by (rule location_search_colon_space)
  show "add_location_reference_target cfg csp (location_search s) self w = Inr (None, self, w)"
    by (simp add: n add_location_reference_target_def)
next
  assume c: "CHR '':'' \<notin> set s"
  then show n: "location_search s = None" by (rule location_search_needs_colon)
  show "add_location_reference_target cfg csp (location_search s) self w = Inr (None, self, w)"
    by (simp add: n add_location_reference_target_def)
next
  assume "CHR '':'' \<notin> set nm"
  then have "CHR '':'' \<notin> set (''$(location #'' @ nm @ '')'')" by simp
  then show "location_search (''$(location #'' @ nm @ '')'') = None"
    by (rule location_search_needs_colon)
next
  assume a: "CHR '':'' \<notin> set nm
        \<and> location_search (pre @ ''$(location #'' @ nm @ '')'' @ post) = Some (ref', tag')"
  then have "ref' \<in> reference_lang" by (auto intro: location_search_ref)
  then have "CHR '':'' \<in> set ref'" unfolding reference_lang_def by auto
  with a show "ref' \<noteq> ''#'' @ nm" by auto
qed

theorem location_needs_colon_witness:
  "location_search ''$(location //proto:msg jar)'' = Some (''//proto:msg'', Some '' jar'')
   \<and> (\<exists>a b. ''//proto:msg'' = a @ '':'' @ b \<and> b \<noteq> [])
   \<and> location_search ''$(location #pthread)'' = None
   \<and> add_location_reference_target cfg0 ''app'' (location_search ''$(location #pthread)'')
        app_server world1 = Inr (None, app_server, world1)
   \<and> \<not> (\<exists>p u v. ''$(location #pthread)'' = p @ u @ v \<and> u \<in> location_text)"
proof -
  note found = location_needs_colon [where s = "''$(location //proto:msg jar)''"
      and ref = "''//proto:msg''" and tag = "Some '' jar''" and cfg = cfg0 and csp = "''app''"
      and self = app_server and w = world1 and nm = "''pthread''" and pre = "[]" and post = "[]"
      and ref' = "''//proto:msg''" and tag' = None]
  note missed = location_needs_colon [where s = "''$(location #pthread)''"
      and ref = "''//proto:msg''" and tag = "Some '' jar''" and cfg = cfg0 and csp = "''app''"
      and self = app_server and w = world1 and nm = "''pthread''" and pre = "[]" and post = "[]"
      and ref' = "''//proto:msg''" and tag' = None]
  have no_colon: "CHR '':'' \<notin> set ''$(location #pthread)''" by simp
  from found [THEN conjunct1] location_search_msg
  have a: "\<exists>a b. ''//proto:msg'' = a @ '':'' @ b \<and> b \<noteq> []" by blast
  from missed [THEN conjunct2, THEN conjunct2, THEN conjunct2, THEN conjunct1] no_colon
  have b: "location_search ''$(location #pthread)'' = None
    \<and> add_location_reference_target cfg0 ''app'' (location_search ''$(location #pthread)'')
        app_server world1 = Inr (None, app_server, world1)"
    by blast
  from missed [THEN conjunct2, THEN conjunct1] b
  have c: "\<not> (\<exists>p u v. ''$(location #pthread)'' = p @ u @ v \<and> u \<in> location_text)"
    by simp
  from a b c location_search_msg show ?thesis by blast
qed

text \<open>
  C10 as stated fails: in \<open>$(location #pthread):x)\<close> the reference \<open>#pthread\<close> has no
  colon, but the colon after the closing parenthesis lets the expression match with the
  reference \<open>#pthread):x\<close>, and \<open>_add_location_reference_target\<close> registers a system
  library of that name and adds it to the dependencies.
\<close>

theorem location_colon_after_counterexample:
  "''$(location #pthread):x)'' = ''$(location #'' @ ''pthread'' @ '')'' @ '':x)''
   \<and> CHR '':'' \<notin> set ''pthread''
   \<and> location_search ''$(location #pthread):x)'' = Some (''#pthread):x'', None)
   \<and> add_location_reference_target cfg0 ''app'' (location_search ''$(location #pthread):x)'')
        app_server world1
      = Inr (Some ((''#'', ''pthread):x''), []), app_server_x, register_target lib_pthread_x world1)
   \<and> (''#'', ''pthread):x'') \<in> set (deps app_server_x)
   \<and> (''#'', ''pthread):x'') \<notin> set (deps app_server)"
  using location_search_x location_x_dep by (simp add: app_server_x_def app_server_def)

section \<open>Target key normalizer\<close>

lemma split_on_nonempty [simp]: "split_on c s \<noteq> []"
  by (induction s) (auto split: list.splits)

lemma split_on_no_sep: "w \<in> set (split_on c s) \<Longrightarrow> c \<notin> set w"
  by (induction s arbitrary: w) (auto split: if_splits list.splits)

lemma split_on_plain: "c \<notin> set w \<Longrightarrow> split_on c w = [w]"
  by (induction w) auto

lemma split_on_append_sep:
  "c \<notin> set w \<Longrightarrow> split_on c (w @ c # rest) = w # split_on c rest"
  by (induction w) auto

lemma split_on_join:
  "ws \<noteq> [] \<Longrightarrow> \<forall>w \<in> set ws. c \<notin> set w \<Longrightarrow> split_on c (join_with [c] ws) = ws"
proof (induction "[c]" ws rule: join_with.induct)
  case 1
  then show ?case by simp
next
  case (2 x)
  then show ?case by (simp add: split_on_plain)
next
  case (3 x y ys)
  then show ?case by (simp add: split_on_append_sep)
qed

lemma rel_normal_Nil [simp]: "rel_normal []"
  by (simp add: rel_normal_def)

lemma rel_normal_step:
  assumes "rel_normal cs" and "CHR ''/'' \<notin> set c"
  shows "rel_normal (normpath_step 0 cs c)"
proof -
  from assms(1) obtain k ns where cs: "cs = replicate k ''..'' @ ns"
    and ns: "\<forall>c \<in> set ns. plain_comp c"
    unfolding rel_normal_def by blast
  show ?thesis
  proof (cases "c = [] \<or> c = ''.''")
    case True
    with assms(1) show ?thesis by (auto simp: normpath_step_def)
  next
    case False
    note nontrivial = this
    show ?thesis
    proof (cases "c = ''..''")
      case False
      with nontrivial have step: "normpath_step 0 cs c = cs @ [c]"
        by (simp add: normpath_step_def)
      from False nontrivial assms(2) have "plain_comp c" by (simp add: plain_comp_def)
      with ns have "\<forall>x \<in> set (ns @ [c]). plain_comp x" by simp
      moreover have "cs @ [c] = replicate k ''..'' @ (ns @ [c])" using cs by simp
      ultimately show ?thesis unfolding step rel_normal_def by blast
    next
      case True
      show ?thesis
      proof (cases "ns = []")
        case empty: True
        with cs have all: "cs = replicate k ''..''" by simp
        then have "cs = [] \<or> last cs = ''..''" by (cases k) auto
        with True have step: "normpath_step 0 cs c = cs @ [c]"
          by (auto simp: normpath_step_def)
        have "cs @ [c] = replicate (Suc k) ''..'' @ []"
          using all True by (simp add: replicate_append_same)
        then show ?thesis unfolding step rel_normal_def by fastforce
      next
        case nonempty: False
        then have "last ns \<in> set ns" by simp
        with ns have "last ns \<noteq> ''..''" by (auto simp: plain_comp_def)
        with cs nonempty have l: "cs \<noteq> []" "last cs \<noteq> ''..''" by auto
        with True have step: "normpath_step 0 cs c = butlast cs"
          by (simp add: normpath_step_def)
        have b: "butlast cs = replicate k ''..'' @ butlast ns"
          using cs nonempty by (simp add: butlast_append)
        have "\<forall>x \<in> set (butlast ns). plain_comp x"
          using ns by (meson in_set_butlastD)
        with b show ?thesis unfolding step rel_normal_def by blast
      qed
    qed
  qed
qed

lemma rel_normal_foldl:
  "rel_normal acc \<Longrightarrow> \<forall>w \<in> set ws. CHR ''/'' \<notin> set w \<Longrightarrow>
   rel_normal (foldl (normpath_step 0) acc ws)"
  by (induction ws arbitrary: acc) (simp_all add: rel_normal_step)

lemma rel_normal_prefix_dotdot:
  assumes "rel_normal (acc @ ''..'' # ws)"
  shows "acc = [] \<or> last acc = ''..''"
proof -
  from assms obtain k ns where eq: "acc @ ''..'' # ws = replicate k ''..'' @ ns"
    and ns: "\<forall>c \<in> set ns. plain_comp c"
    unfolding rel_normal_def by blast
  from eq obtain us where
    "(acc = replicate k ''..'' @ us \<and> us @ ''..'' # ws = ns)
     \<or> (acc @ us = replicate k ''..'' \<and> ''..'' # ws = us @ ns)"
    by (auto simp: append_eq_append_conv2)
  then show ?thesis
  proof
    assume "acc = replicate k ''..'' @ us \<and> us @ ''..'' # ws = ns"
    then have "''..'' \<in> set ns" by auto
    with ns show ?thesis by (auto simp: plain_comp_def)
  next
    assume a: "acc @ us = replicate k ''..'' \<and> ''..'' # ws = us @ ns"
    then have "set acc \<subseteq> set (replicate k ''..'')" by (metis set_append Un_upper1)
    then have all: "\<forall>x \<in> set acc. x = ''..''" by auto
    show ?thesis
    proof (cases "acc = []")
      case True
      then show ?thesis by simp
    next
      case False
      then have "last acc \<in> set acc" by simp
      with all show ?thesis by simp
    qed
  qed
qed

lemma rel_normal_elem:
  assumes "rel_normal cs" and "c \<in> set cs"
  shows "c \<noteq> [] \<and> c \<noteq> ''.'' \<and> CHR ''/'' \<notin> set c"
proof -
  from assms(1) obtain k ns where cs: "cs = replicate k ''..'' @ ns"
    and ns: "\<forall>c \<in> set ns. plain_comp c"
    unfolding rel_normal_def by blast
  from assms(2) cs have "c = ''..'' \<or> c \<in> set ns" by auto
  with ns show ?thesis by (auto simp: plain_comp_def)
qed

lemma rel_normal_fixed:
  "rel_normal (acc @ ws) \<Longrightarrow> foldl (normpath_step 0) acc ws = acc @ ws"
proof (induction ws arbitrary: acc)
  case Nil
  then show ?case by simp
next
  case (Cons w ws)
  have w: "w \<noteq> [] \<and> w \<noteq> ''.''"
    using rel_normal_elem [OF Cons.prems, of w] by simp
  have "normpath_step 0 acc w = acc @ [w]"
  proof (cases "w = ''..''")
    case True
    with Cons.prems have "acc = [] \<or> last acc = ''..''"
      using rel_normal_prefix_dotdot [of acc ws] by simp
    with True show ?thesis by (auto simp: normpath_step_def)
  next
    case False
    with w show ?thesis by (simp add: normpath_step_def)
  qed
  moreover have "rel_normal ((acc @ [w]) @ ws)" using Cons.prems by simp
  ultimately show ?case using Cons.IH [of "acc @ [w]"] by simp
qed

lemma join_with_head:
  "ws \<noteq> [] \<Longrightarrow> hd ws \<noteq> [] \<Longrightarrow> join_with sep ws \<noteq> [] \<and> hd (join_with sep ws) = hd (hd ws)"
  by (induction sep ws rule: join_with.induct) auto

lemma startswith_slash: "startswith s ''/'' = (s \<noteq> [] \<and> hd s = CHR ''/'')"
  by (cases s) (auto simp: startswith_def)

lemma rel_normal_join:
  assumes "rel_normal cs" and "cs \<noteq> []"
  shows "join_with ''/'' cs \<noteq> []" and "\<not> startswith (join_with ''/'' cs) ''/''"
proof -
  from assms have h: "hd cs \<noteq> [] \<and> CHR ''/'' \<notin> set (hd cs)"
    using rel_normal_elem [of cs "hd cs"] by simp
  with join_with_head [of cs "''/''"] assms(2)
  have j: "join_with ''/'' cs \<noteq> [] \<and> hd (join_with ''/'' cs) = hd (hd cs)" by simp
  then show "join_with ''/'' cs \<noteq> []" by simp
  from h have "hd (hd cs) \<noteq> CHR ''/''" by (cases "hd cs") auto
  with j show "\<not> startswith (join_with ''/'' cs) ''/''" by (simp add: startswith_slash)
qed

lemma initial_slashes_0: "initial_slashes_of p = 0 \<longleftrightarrow> \<not> startswith p ''/''"
  by (simp add: initial_slashes_of_def)

lemma normpath_relative:
  assumes "\<not> startswith p ''/''"
  shows "\<not> startswith (normpath p) ''/''" and "normpath (normpath p) = normpath p"
proof -
  let ?cs = "foldl (normpath_step 0) [] (split_on CHR ''/'' p)"
  have rn: "rel_normal ?cs"
    by (rule rel_normal_foldl) (auto dest: split_on_no_sep)
  have dot: "normpath ''.'' = ''.''" by code_simp
  have nodot: "\<not> startswith ''.'' ''/''" by (simp add: startswith_def)
  show "\<not> startswith (normpath p) ''/''" and "normpath (normpath p) = normpath p"
  proof -
    have "\<not> startswith (normpath p) ''/'' \<and> normpath (normpath p) = normpath p"
    proof (cases "p = [] \<or> ?cs = []")
      case True
      with assms have "normpath p = ''.''"
        by (auto simp: normpath_def Let_def initial_slashes_0 [THEN iffD2])
      with dot nodot show ?thesis by simp
    next
      case False
      with assms rel_normal_join [OF rn] have np: "normpath p = join_with ''/'' ?cs"
        by (simp add: normpath_def Let_def initial_slashes_0 [THEN iffD2])
      from False rel_normal_join [OF rn] have j: "join_with ''/'' ?cs \<noteq> []"
        "\<not> startswith (join_with ''/'' ?cs) ''/''" by simp_all
      have sp: "split_on CHR ''/'' (join_with ''/'' ?cs) = ?cs"
        using False rn by (intro split_on_join) (auto dest: rel_normal_elem)
      have fx: "foldl (normpath_step 0) [] ?cs = ?cs"
        using rel_normal_fixed [of "[]" ?cs] rn by simp
      have "normpath (join_with ''/'' ?cs) = join_with ''/'' ?cs"
        using j sp fx by (simp add: normpath_def Let_def initial_slashes_0 [THEN iffD2])
      with np j show ?thesis by simp
    qed
    then show "\<not> startswith (normpath p) ''/''" and "normpath (normpath p) = normpath p"
      by simp_all
  qed
qed

lemma rsplit1_append: "c \<notin> set n \<Longrightarrow> rsplit1 c (q @ c # n) = (q, n)"
proof -
  assume "c \<notin> set n"
  then have all: "\<And>x. x \<in> set (rev n) \<Longrightarrow> x \<noteq> c" by auto
  have "takeWhile (\<lambda>x. x \<noteq> c) (rev n @ c # rev q) = rev n"
    using takeWhile_append2 [of "rev n" "\<lambda>x. x \<noteq> c" "c # rev q"] all by simp
  moreover have "dropWhile (\<lambda>x. x \<noteq> c) (rev n @ c # rev q) = c # rev q"
    using dropWhile_append2 [of "rev n" "\<lambda>x. x \<noteq> c" "c # rev q"] all by simp
  ultimately show ?thesis by (simp add: rsplit1_def)
qed

lemma rsplit1_parts:
  assumes "c \<in> set t"
  shows "t = fst (rsplit1 c t) @ c # snd (rsplit1 c t)" and "c \<notin> set (snd (rsplit1 c t))"
proof -
  from assms have "c \<in> set (rev t)" by simp
  then obtain ys zs where r: "rev t = ys @ c # zs" and ys: "c \<notin> set ys"
    by (meson split_list_first)
  then have t: "t = rev zs @ c # rev ys" by (metis rev_append rev_rev_ident rev.simps(2) append.assoc append_Cons append_Nil)
  have "c \<notin> set (rev ys)" using ys by simp
  from rsplit1_append [OF this, of "rev zs"] t
  have "rsplit1 c t = (rev zs, rev ys)" by simp
  with t ys show "t = fst (rsplit1 c t) @ c # snd (rsplit1 c t)"
    and "c \<notin> set (snd (rsplit1 c t))" by simp_all
qed

lemma canonical_form_cut:
  "canonical_form t = normpath (fst (cut_target t)) @ '':'' @ snd (cut_target t)"
  by (simp add: canonical_form_def cut_target_def split: prod.splits)

lemma cut_target_name: "CHR '':'' \<notin> set (snd (cut_target t))"
  by (auto simp: cut_target_def rsplit1_parts(2))

lemma cut_target_path:
  assumes "\<not> startswith t ''/''"
  shows "\<not> startswith (fst (cut_target t)) ''/''"
proof -
  have "\<exists>r. t = fst (cut_target t) @ r"
  proof (cases "CHR '':'' \<in> set t")
    case True
    from rsplit1_parts(1) [OF this] True show ?thesis
      by (auto simp: cut_target_def)
  next
    case False
    then show ?thesis
      by (auto simp: cut_target_def) (metis append_take_drop_id)
  qed
  then obtain r where "t = fst (cut_target t) @ r" by blast
  with assms show ?thesis
    by (cases "fst (cut_target t)") (auto simp: startswith_slash)
qed

lemma canonical_form_fixed:
  assumes "\<not> startswith p ''/''" and "CHR '':'' \<notin> set n"
  shows "canonical_form (normpath p @ '':'' @ n) = normpath p @ '':'' @ n"
proof -
  have "cut_target (normpath p @ '':'' @ n) = (normpath p, n)"
    using assms(2) rsplit1_append [of "CHR '':''" n "normpath p"]
    by (simp add: cut_target_def)
  then show ?thesis
    using normpath_relative(2) [OF assms(1)] by (simp add: canonical_form_cut)
qed

lemma normpath_nonempty: "normpath p \<noteq> []"
  by (auto simp: normpath_def Let_def)

lemma normpath_absolute: "startswith p ''/'' \<Longrightarrow> startswith (normpath p) ''/''"
  by (auto simp: normpath_def Let_def initial_slashes_of_def startswith_def)

lemma canonical_form_relative:
  "\<not> startswith (canonical_form t) ''/'' \<longleftrightarrow> \<not> startswith (fst (cut_target t)) ''/''"
proof -
  have "startswith (canonical_form t) ''/'' = startswith (normpath (fst (cut_target t))) ''/''"
    using normpath_nonempty [of "fst (cut_target t)"]
    by (cases "normpath (fst (cut_target t))") (simp_all add: canonical_form_cut startswith_slash)
  then show ?thesis
    using normpath_absolute [of "fst (cut_target t)"] normpath_relative(1) [of "fst (cut_target t)"]
    by blast
qed

lemma canonical_form_again:
  assumes "\<not> startswith (canonical_form t) ''/''"
  shows "canonical_form (canonical_form t) = canonical_form t"
proof -
  from assms have rel: "\<not> startswith (fst (cut_target t)) ''/''"
    by (simp add: canonical_form_relative)
  have "canonical_form (normpath (fst (cut_target t)) @ '':'' @ snd (cut_target t))
      = normpath (fst (cut_target t)) @ '':'' @ snd (cut_target t)"
    by (rule canonical_form_fixed [OF rel cut_target_name])
  then show ?thesis by (simp only: canonical_form_cut [of t])
qed

lemma normalize_single: "normalize_targets [s] d = Inr [t] \<longleftrightarrow> normalize_one s d = Inr t"
  by (auto split: sum.splits)

lemma normalize_one_canonical:
  assumes "normalize_one s d = Inr t"
  obtains x where "t = canonical_form x"
    and "\<not> startswith d ''/'' \<Longrightarrow> \<not> startswith s ''///'' \<Longrightarrow> \<not> startswith x ''/''"
proof (cases "startswith s ''//''")
  case True
  with assms have t: "t = canonical_form (drop 2 s)" by (simp add: normalize_one_def)
  have "\<not> startswith s ''///'' \<Longrightarrow> \<not> startswith (drop 2 s) ''/''"
    using True
    by (cases s; cases "tl s"; cases "tl (tl s)") (auto simp: startswith_def)
  with t that show ?thesis by blast
next
  case False
  with assms have rel: "\<not> startswith s ''/''"
    and t: "t = canonical_form (if d \<noteq> ''.'' then path_join d s else s)"
    by (auto simp: normalize_one_def split: if_splits)
  have "\<not> startswith d ''/'' \<Longrightarrow> \<not> startswith (path_join d s) ''/''"
    using rel by (cases d) (auto simp: path_join_def startswith_slash)
  with rel t that show ?thesis by (cases "d \<noteq> ''.''") auto
qed

lemma normalize_util:
  "normalize_targets [''//lib/util:helper''] ''app/service'' = Inr [''lib/util:helper'']"
  "normalize_targets [''x/...''] ''app'' = Inr [''app/x:...'']"
  by code_simp+

text \<open>
  Normalizing is idempotent on relative canonical forms. When a reference is normalized
  to a canonical form that does not begin with \<open>/\<close>, normalizing that canonical form
  from the root directory \<open>.\<close> gives it back. This is the case whenever the working
  directory is relative and the reference does not begin with three slashes.
\<close>

theorem normalize_idempotent:
  "(normalize_targets [s] d = Inr [t] \<and> \<not> startswith t ''/'' \<longrightarrow> normalize_targets [t] ''.'' = Inr [t])
   \<and> (normalize_targets [s] d = Inr [t] \<and> \<not> startswith d ''/'' \<and> \<not> startswith s ''///''
        \<longrightarrow> \<not> startswith t ''/'')"
proof (intro conjI impI)
  assume a: "normalize_targets [s] d = Inr [t] \<and> \<not> startswith t ''/''"
  then have one: "normalize_one s d = Inr t" using normalize_single by blast
  then obtain x where t: "t = canonical_form x" by (rule normalize_one_canonical)
  from a have rel: "\<not> startswith t ''/''" by simp
  then have "\<not> startswith t ''//''"
    by (cases t) (auto simp: startswith_def)
  with rel have "normalize_one t ''.'' = Inr (canonical_form t)"
    by (simp add: normalize_one_def)
  also have "canonical_form t = t"
    using rel canonical_form_again [of x] t by simp
  finally show "normalize_targets [t] ''.'' = Inr [t]" using normalize_single by blast
next
  assume a: "normalize_targets [s] d = Inr [t] \<and> \<not> startswith d ''/'' \<and> \<not> startswith s ''///''"
  then have one: "normalize_one s d = Inr t" using normalize_single by blast
  then obtain x where t: "t = canonical_form x" and x: "\<not> startswith x ''/''"
    using a by (auto elim: normalize_one_canonical)
  from cut_target_path [OF x] show "\<not> startswith t ''/''"
    by (simp add: t canonical_form_relative)
qed

theorem normalize_idempotent_witness:
  "normalize_targets [''//lib/util:helper''] ''app/service'' = Inr [''lib/util:helper'']
   \<and> normalize_targets [''lib/util:helper''] ''.'' = Inr [''lib/util:helper'']
   \<and> normalize_targets [''x/...''] ''app'' = Inr [''app/x:...'']
   \<and> normalize_targets [''app/x:...''] ''.'' = Inr [''app/x:...'']"
proof -
  have rel: "\<not> startswith ''lib/util:helper'' ''/''" "\<not> startswith ''app/x:...'' ''/''"
    by (simp_all add: startswith_def)
  from normalize_idempotent [where s = "''//lib/util:helper''" and d = "''app/service''"
      and t = "''lib/util:helper''"]
    normalize_idempotent [where s = "''x/...''" and d = "''app''" and t = "''app/x:...''"]
    normalize_util rel
  show ?thesis by blast
qed

text \<open>
  C7. \<open>_normalize_one\<close> documents the directory of a canonical form as relative to the
  root directory of the workspace, and rejects a reference that starts with a single
  \<open>/\<close>. For \<open>///foo:bar\<close> it strips the two slashes of the root-relative
  form and \<open>normpath\<close> keeps the third: the reference is accepted and the result
  \<open>/foo:bar\<close> is a root path. Normalizing that result from the root directory is
  fatal, where an idempotent normalizer gives it back.
\<close>

theorem normalize_triple_slash:
  "normalize_targets [''///foo:bar''] ''.'' = Inr [''/foo:bar'']
   \<and> startswith ''/foo:bar'' ''/''
   \<and> normalize_targets [''/foo:bar''] ''.''
       = Inl (Fatal ''Invalid target \"/foo:bar\" starting from root path.'')
   \<and> normalize_targets [''/foo:bar''] ''.'' \<noteq> normalize_targets [''///foo:bar''] ''.''"
  by code_simp

section \<open>Rule fingerprint: what the digest depends on\<close>

lemma rule_hash_unfold:
  assumes "db k = Some t" and "rule_hash_memo t = None"
    and "dep_rule_hashes (rule_hash env n) (deps t) [] db = Some (Inr (hs, db'))"
  shows "rule_hash env (Suc n) k db =
           Some (case digest_of env t hs of
                   Inl e \<Rightarrow> Inl e
                 | Inr h \<Rightarrow> Inr (h, db'(k \<mapsto> t\<lparr>rule_hash_memo := Some h\<rparr>)))"
  using assms by (simp split: sum.splits)

lemma digest_of_same:
  assumes "type t1 = type t2" and "name t1 = name t2" and "srcs t1 = srcs t2"
    and "rule_hash_factors env t1 = rule_hash_factors env t2"
  shows "digest_of env t1 hs = digest_of env t2 hs"
  using assms by (simp add: digest_of_def factors_of_def)

lemma factors_of_srcs_value:
  assumes "map_of (rule_hash_factors env self) ''srcs'' = None"
  shows "(''srcs'', PList (map PStr (srcs self))) \<in> set (factors_of env self hs)"
proof -
  have "map_of (rev (rule_hash_factors env self)) ''srcs'' = None"
    using assms by (simp add: map_of_eq_None_iff)
  then have "map_of (factors_of env self hs) ''srcs'' = Some (PList (map PStr (srcs self)))"
    by (simp add: factors_of_def map_of_dict_update)
  then show ?thesis by (rule map_of_SomeD)
qed

lemma source_change_items:
  assumes "map_of (rule_hash_factors env self) ''srcs'' = None"
    and "rule_hash_factors env (self\<lparr>srcs := ss\<rparr>) = rule_hash_factors env self"
    and "ss \<noteq> srcs self"
  shows "sorted_items (factors_of env (self\<lparr>srcs := ss\<rparr>) hs) \<noteq> sorted_items (factors_of env self hs)"
proof
  assume eq: "sorted_items (factors_of env (self\<lparr>srcs := ss\<rparr>) hs) = sorted_items (factors_of env self hs)"
  have a: "(''srcs'', PList (map PStr ss)) \<in> set (factors_of env (self\<lparr>srcs := ss\<rparr>) hs)"
    using factors_of_srcs_value [of env "self\<lparr>srcs := ss\<rparr>" hs] assms(1,2) by simp
  have b: "(''srcs'', PList (map PStr (srcs self))) \<in> set (factors_of env self hs)"
    using factors_of_srcs_value [OF assms(1)] .
  from eq have "set (factors_of env (self\<lparr>srcs := ss\<rparr>) hs) = set (factors_of env self hs)"
    by (metis set_sorted_items)
  with a have "(''srcs'', PList (map PStr ss)) \<in> set (factors_of env self hs)" by simp
  with b distinct_factors_of [of env self hs]
  have "PList (map PStr ss) = PList (map PStr (srcs self))"
    by (rule_tac eq_key_imp_eq_value) auto
  then have "ss = srcs self" by (simp add: inj_map_eq_map inj_on_def)
  with assms(3) show False by simp
qed

lemma with_expanded_deps_upd:
  "(with_expanded_deps g db)(k \<mapsto> t\<lparr>expanded_deps := g k\<rparr>) = with_expanded_deps g (db(k \<mapsto> t))"
  by (auto simp: with_expanded_deps_def)

lemma dep_rule_hashes_sim:
  assumes "\<And>d db. h2 d (with_expanded_deps g db)
             = map_option (map_sum id (\<lambda>(x, db'). (x, with_expanded_deps g db'))) (h1 d db)"
  shows "dep_rule_hashes h2 ds acc (with_expanded_deps g db)
           = map_option (map_sum id (\<lambda>(xs, db'). (xs, with_expanded_deps g db')))
               (dep_rule_hashes h1 ds acc db)"
proof (induction ds arbitrary: acc db)
  case Nil
  then show ?case by simp
next
  case (Cons d ds)
  show ?case
  proof (cases "h1 d db")
    case None
    then show ?thesis by (simp add: assms)
  next
    case (Some r)
    then show ?thesis
      by (cases r) (auto simp: assms Cons.IH)
  qed
qed

lemma rule_hash_sim:
  assumes "\<And>t e. rule_hash_factors env (t\<lparr>expanded_deps := e\<rparr>) = rule_hash_factors env t"
  shows "rule_hash env n k (with_expanded_deps g db)
           = map_option (map_sum id (\<lambda>(h, db'). (h, with_expanded_deps g db')))
               (rule_hash env n k db)"
proof (induction n arbitrary: k db)
  case 0
  then show ?case by simp
next
  case (Suc n)
  show ?case
  proof (cases "db k")
    case None
    then show ?thesis by (simp add: with_expanded_deps_def)
  next
    case (Some t)
    then have lk: "with_expanded_deps g db k = Some (t\<lparr>expanded_deps := g k\<rparr>)"
      by (simp add: with_expanded_deps_def)
    show ?thesis
    proof (cases "rule_hash_memo t")
      case (Some h)
      with \<open>db k = Some t\<close> lk show ?thesis by simp
    next
      case None
      note memo = this
      have deps: "dep_rule_hashes (rule_hash env n) (deps t) [] (with_expanded_deps g db)
           = map_option (map_sum id (\<lambda>(xs, db'). (xs, with_expanded_deps g db')))
               (dep_rule_hashes (rule_hash env n) (deps t) [] db)"
        by (rule dep_rule_hashes_sim) (rule Suc.IH)
      have dig: "\<And>hs. digest_of env (t\<lparr>expanded_deps := g k\<rparr>) hs = digest_of env t hs"
        by (rule digest_of_same) (simp_all add: assms)
      show ?thesis
      proof (cases "dep_rule_hashes (rule_hash env n) (deps t) [] db")
        case None
        with \<open>db k = Some t\<close> lk memo deps show ?thesis by simp
      next
        case (Some r)
        show ?thesis
        proof (cases r)
          case (Inl e)
          with Some \<open>db k = Some t\<close> lk memo deps show ?thesis by simp
        next
          case (Inr p)
          obtain hs db' where p: "p = (hs, db')" by (cases p)
          have upd: "\<And>h. (with_expanded_deps g db')(k \<mapsto> t\<lparr>expanded_deps := g k, rule_hash_memo := Some h\<rparr>)
              = with_expanded_deps g (db'(k \<mapsto> t\<lparr>rule_hash_memo := Some h\<rparr>))"
            by (auto simp: with_expanded_deps_def)
          from Inr p Some \<open>db k = Some t\<close> lk memo deps dig upd show ?thesis
            by (simp split: sum.splits)
        qed
      qed
    qed
  qed
qed

lemma add_target_file_app_server:
  "add_target_file ''bin'' (PStr ''build64_release/app/server'') app_server = Inr app_server_file"
  by (simp add: add_target_file_def app_server_def app_server_file_def)

lemma deps_hashed_alike:
  "\<exists>hs d1 d2.
     dep_rule_hashes (rule_hash sample_env (Suc 0)) (deps app_server) [] db_two = Some (Inr (hs, d1))
     \<and> dep_rule_hashes (rule_hash sample_env (Suc 0)) (deps tools_server) [] db_two
         = Some (Inr (hs, d2))"
proof -
  let ?a = "dep_rule_hashes (rule_hash sample_env (Suc 0)) (deps app_server) [] db_two"
  let ?b = "dep_rule_hashes (rule_hash sample_env (Suc 0)) (deps tools_server) [] db_two"
  have same: "map_option (map_sum id fst) ?a = map_option (map_sum id fst) ?b"
    by code_simp
  have ok: "(case ?a of Some (Inr _) \<Rightarrow> True | _ \<Rightarrow> False)"
    by code_simp
  then obtain hs d1 where a: "?a = Some (Inr (hs, d1))"
    by (auto split: option.splits sum.splits)
  with same obtain d2 where "?b = Some (Inr (hs, d2))"
    by (cases ?b) (auto simp: map_sum_def split: sum.splits)
  with a show ?thesis by blast
qed

lemma sample_env_factors:
  "rule_hash_factors sample_env = default_rule_hash_factors"
  "sample_env\<lparr>rule_hash_factors := default_rule_hash_factors\<rparr> = sample_env"
  by (simp_all add: sample_env_def)

lemma servers_alike:
  "db_two (''app'', ''server'') = Some app_server"
  "db_two (''tools'', ''server'') = Some tools_server"
  "rule_hash_memo app_server = None" "rule_hash_memo tools_server = None"
  "type app_server = type tools_server" "name app_server = name tools_server"
  "srcs app_server = srcs tools_server" "data app_server = data tools_server"
  "srcs app_server = [''main.cc'']" "map_of (data app_server) ''srcs'' = None"
  by (simp_all add: db_two_def app_server_def tools_server_def)

text \<open>
  C1, as the code has it. The digest is \<open>md5sum(str(sorted(factors.items())))\<close>.
  Two targets whose hashes are not yet memoized, with the same type, name and sources,
  the same extra factors (by default the \<open>data\<close> map) and the same list of
  dependency hashes, get the same result from \<open>rule_hash\<close>, and a result there is.
  Changing the declared sources changes the item list that is serialized and hashed,
  provided the extra factors have no key \<open>srcs\<close>. The recursion follows \<open>deps\<close> only:
  the digest is the same whatever the \<open>expanded_deps\<close> of the targets are.
\<close>

theorem rule_hash_determined:
  "(db1 k1 = Some t1 \<and> db2 k2 = Some t2
      \<and> rule_hash_memo t1 = None \<and> rule_hash_memo t2 = None
      \<and> type t1 = type t2 \<and> name t1 = name t2 \<and> srcs t1 = srcs t2
      \<and> rule_hash_factors env t1 = rule_hash_factors env t2
      \<and> dep_rule_hashes (rule_hash env n1) (deps t1) [] db1 = Some (Inr (hs, d1))
      \<and> dep_rule_hashes (rule_hash env n2) (deps t2) [] db2 = Some (Inr (hs, d2))
      \<longrightarrow> rule_hash env (Suc n1) k1 db1 \<noteq> None
        \<and> map_option (map_sum id fst) (rule_hash env (Suc n1) k1 db1)
            = map_option (map_sum id fst) (rule_hash env (Suc n2) k2 db2))
   \<and> (map_of (rule_hash_factors env self) ''srcs'' = None
      \<and> rule_hash_factors env (self\<lparr>srcs := ss\<rparr>) = rule_hash_factors env self
      \<and> ss \<noteq> srcs self
      \<longrightarrow> sorted_items (factors_of env (self\<lparr>srcs := ss\<rparr>) hs')
            \<noteq> sorted_items (factors_of env self hs'))
   \<and> ((\<forall>t e. rule_hash_factors env (t\<lparr>expanded_deps := e\<rparr>) = rule_hash_factors env t)
      \<longrightarrow> map_option (map_sum id fst) (rule_hash env n k (with_expanded_deps g db))
            = map_option (map_sum id fst) (rule_hash env n k db))"
proof (intro conjI impI)
  assume a: "db1 k1 = Some t1 \<and> db2 k2 = Some t2
      \<and> rule_hash_memo t1 = None \<and> rule_hash_memo t2 = None
      \<and> type t1 = type t2 \<and> name t1 = name t2 \<and> srcs t1 = srcs t2
      \<and> rule_hash_factors env t1 = rule_hash_factors env t2
      \<and> dep_rule_hashes (rule_hash env n1) (deps t1) [] db1 = Some (Inr (hs, d1))
      \<and> dep_rule_hashes (rule_hash env n2) (deps t2) [] db2 = Some (Inr (hs, d2))"
  then have r1: "rule_hash env (Suc n1) k1 db1 =
           Some (case digest_of env t1 hs of
                   Inl e \<Rightarrow> Inl e
                 | Inr h \<Rightarrow> Inr (h, d1(k1 \<mapsto> t1\<lparr>rule_hash_memo := Some h\<rparr>)))"
    by (intro rule_hash_unfold) simp_all
  from a have r2: "rule_hash env (Suc n2) k2 db2 =
           Some (case digest_of env t2 hs of
                   Inl e \<Rightarrow> Inl e
                 | Inr h \<Rightarrow> Inr (h, d2(k2 \<mapsto> t2\<lparr>rule_hash_memo := Some h\<rparr>)))"
    by (intro rule_hash_unfold) simp_all
  from a have d: "digest_of env t1 hs = digest_of env t2 hs"
    by (intro digest_of_same) simp_all
  from r1 show "rule_hash env (Suc n1) k1 db1 \<noteq> None" by simp
  from r1 r2 d show "map_option (map_sum id fst) (rule_hash env (Suc n1) k1 db1)
            = map_option (map_sum id fst) (rule_hash env (Suc n2) k2 db2)"
    by (simp split: sum.splits)
next
  assume "map_of (rule_hash_factors env self) ''srcs'' = None
      \<and> rule_hash_factors env (self\<lparr>srcs := ss\<rparr>) = rule_hash_factors env self
      \<and> ss \<noteq> srcs self"
  then show "sorted_items (factors_of env (self\<lparr>srcs := ss\<rparr>) hs')
            \<noteq> sorted_items (factors_of env self hs')"
    by (intro source_change_items) simp_all
next
  assume "\<forall>t e. rule_hash_factors env (t\<lparr>expanded_deps := e\<rparr>) = rule_hash_factors env t"
  then have "rule_hash env n k (with_expanded_deps g db)
           = map_option (map_sum id (\<lambda>(h, db'). (h, with_expanded_deps g db')))
               (rule_hash env n k db)"
    by (intro rule_hash_sim) simp
  then show "map_option (map_sum id fst) (rule_hash env n k (with_expanded_deps g db))
            = map_option (map_sum id fst) (rule_hash env n k db)"
    by (cases "rule_hash env n k db") (auto simp: map_sum_def split: sum.splits)
qed

theorem rule_hash_determined_witness:
  "rule_hash sample_env (Suc (Suc 0)) (''app'', ''server'') db_two \<noteq> None
   \<and> map_option (map_sum id fst) (rule_hash sample_env (Suc (Suc 0)) (''app'', ''server'') db_two)
       = map_option (map_sum id fst) (rule_hash sample_env (Suc (Suc 0)) (''tools'', ''server'') db_two)
   \<and> sorted_items (factors_of sample_env (app_server\<lparr>srcs := [''other.cc'']\<rparr>) [])
       \<noteq> sorted_items (factors_of sample_env app_server [])
   \<and> map_option (map_sum id fst)
         (rule_hash sample_env (Suc (Suc 0)) (''app'', ''server'')
            (with_expanded_deps (\<lambda>k. []) db_two))
       = map_option (map_sum id fst) (rule_hash sample_env (Suc (Suc 0)) (''app'', ''server'') db_two)"
proof -
  from deps_hashed_alike obtain hs d1 d2 where
    a: "dep_rule_hashes (rule_hash sample_env (Suc 0)) (deps app_server) [] db_two
          = Some (Inr (hs, d1))"
    and b: "dep_rule_hashes (rule_hash sample_env (Suc 0)) (deps tools_server) [] db_two
          = Some (Inr (hs, d2))"
    by blast
  note inst = rule_hash_determined [where env = sample_env and ?db1.0 = db_two and ?db2.0 = db_two
      and ?k1.0 = "(''app'', ''server'')" and ?k2.0 = "(''tools'', ''server'')"
      and ?t1.0 = app_server and ?t2.0 = tools_server and ?n1.0 = "Suc 0" and ?n2.0 = "Suc 0"
      and hs = hs and ?d1.0 = d1 and ?d2.0 = d2 and self = app_server and ss = "[''other.cc'']"
      and hs' = "[]" and n = "Suc (Suc 0)" and k = "(''app'', ''server'')" and g = "\<lambda>k. []"
      and db = db_two]
  have f: "\<forall>t e. rule_hash_factors sample_env (t\<lparr>expanded_deps := e\<rparr>) = rule_hash_factors sample_env t"
    by (simp add: sample_env_factors default_rule_hash_factors_def)
  have s: "map_of (rule_hash_factors sample_env app_server) ''srcs'' = None
      \<and> rule_hash_factors sample_env (app_server\<lparr>srcs := [''other.cc'']\<rparr>)
          = rule_hash_factors sample_env app_server
      \<and> [''other.cc''] \<noteq> srcs app_server"
    by (simp add: sample_env_factors default_rule_hash_factors_def app_server_def)
  have e: "rule_hash_factors sample_env app_server = rule_hash_factors sample_env tools_server"
    by (simp add: sample_env_factors default_rule_hash_factors_def servers_alike)
  from inst a b f s e servers_alike(1-7) show ?thesis
    by blast
qed

text \<open>
  C1 as stated fails on both counts. A target whose \<open>data\<close> has a key \<open>srcs\<close> keeps
  its digest when its declared source \<open>main.cc\<close> is replaced, for every \<open>str\<close> and
  \<open>md5sum\<close>. And \<open>app:server\<close> before and after \<open>_add_target_file\<close> has the same
  type, name, sources and dependencies but hands different items to \<open>str\<close> and
  \<open>md5sum\<close>: the two digests are not equal for every such pair of functions.
\<close>

theorem data_decides_digest_counterexample:
  "srcs app_server_over = [''main.cc'']
   \<and> (\<forall>env hs. digest_of (env\<lparr>rule_hash_factors := default_rule_hash_factors\<rparr>)
                   (app_server_over\<lparr>srcs := [''other.cc'']\<rparr>) hs
                 = digest_of (env\<lparr>rule_hash_factors := default_rule_hash_factors\<rparr>)
                     app_server_over hs)
   \<and> add_target_file ''bin'' (PStr ''build64_release/app/server'') app_server = Inr app_server_file
   \<and> type app_server_file = type app_server \<and> name app_server_file = name app_server
   \<and> srcs app_server_file = srcs app_server \<and> deps app_server_file = deps app_server
   \<and> \<not> (\<forall>env. digest_of (env\<lparr>rule_hash_factors := default_rule_hash_factors\<rparr>)
                   app_server_file []
                 = digest_of (env\<lparr>rule_hash_factors := default_rule_hash_factors\<rparr>)
                     app_server [])"
proof -
  have over: "\<And>env hs. digest_of (env\<lparr>rule_hash_factors := default_rule_hash_factors\<rparr>)
                   (app_server_over\<lparr>srcs := [''other.cc'']\<rparr>) hs
                 = digest_of (env\<lparr>rule_hash_factors := default_rule_hash_factors\<rparr>)
                     app_server_over hs"
  proof -
    fix env :: hash_env and hs
    let ?env = "env\<lparr>rule_hash_factors := default_rule_hash_factors\<rparr>"
    have "factors_of ?env (app_server_over\<lparr>srcs := [''other.cc'']\<rparr>) hs
        = factors_of ?env app_server_over hs"
      by (rule factors_of_srcs)
         (simp_all add: default_rule_hash_factors_def app_server_over_def app_server_def)
    then show "digest_of ?env (app_server_over\<lparr>srcs := [''other.cc'']\<rparr>) hs
        = digest_of ?env app_server_over hs"
      by (simp add: digest_of_def)
  qed
  have differ: "digest_of sample_env app_server_file [] \<noteq> digest_of sample_env app_server []"
    by code_simp
  have "\<not> (\<forall>env. digest_of (env\<lparr>rule_hash_factors := default_rule_hash_factors\<rparr>)
                   app_server_file []
                 = digest_of (env\<lparr>rule_hash_factors := default_rule_hash_factors\<rparr>)
                     app_server [])"
  proof
    assume "\<forall>env. digest_of (env\<lparr>rule_hash_factors := default_rule_hash_factors\<rparr>)
                   app_server_file []
                 = digest_of (env\<lparr>rule_hash_factors := default_rule_hash_factors\<rparr>)
                     app_server []"
    then have "digest_of (sample_env\<lparr>rule_hash_factors := default_rule_hash_factors\<rparr>)
                   app_server_file []
                 = digest_of (sample_env\<lparr>rule_hash_factors := default_rule_hash_factors\<rparr>)
                     app_server []"
      by (rule spec)
    with differ show False by (simp add: sample_env_factors)
  qed
  moreover have "srcs app_server_over = [''main.cc'']"
    by (simp add: app_server_over_def app_server_def)
  moreover have "type app_server_file = type app_server \<and> name app_server_file = name app_server
     \<and> srcs app_server_file = srcs app_server \<and> deps app_server_file = deps app_server"
    by (simp add: app_server_file_def)
  ultimately show ?thesis
    using over add_target_file_app_server by blast
qed

section \<open>Further properties\<close>

text \<open>
  \<open>SystemLibrary(name)\<close> is \<open>Target.__init__\<close> at its fixed arguments, followed by
  the three assignments of the subclass; the state passed to \<open>__init__\<close> plays no part.
\<close>

lemma system_library_init:
  "system_library cfg csp nm =
     (case init_target cfg csp False (drop 1 nm) ''system_library'' [] [] (Some [''PUBLIC'']) [] w of
        Inl e \<Rightarrow> Inl e
      | Inr (t, w') \<Rightarrow>
          Inr (t\<lparr>key := (''#'', drop 1 nm), fullname := ''#:'' @ drop 1 nm, path := ''#''\<rparr>))"
  by (simp add: system_library_def init_target_def check_kwargs_def check_srcs_def
        init_visibility_def fresh_target_def Let_def split: sum.splits)

lemma collect_dups_empty:
  "collect_dups ss seen acc = [] \<longleftrightarrow> acc = [] \<and> distinct ss \<and> set ss \<inter> seen = {}"
  by (induction ss arbitrary: seen acc) auto

text \<open>
  A target whose declared sources repeat a path is not constructed: with a valid name
  and no unknown options, \<open>_check_srcs\<close> is reached and is fatal, reporting the
  repeated paths.
\<close>

theorem repeated_source_fatal:
  assumes "\<not> distinct ss" and "CHR ''/'' \<notin> set n"
  shows "init_target cfg csp ad n ty ss ds vis [] w
           = Inl (DuplicateSourcePaths (collect_dups ss {} []))
         \<and> collect_dups ss {} [] \<noteq> []"
  using assms
  by (simp add: init_target_def check_name_def check_kwargs_def check_srcs_def fresh_target_def
        Let_def collect_dups_empty)

theorem repeated_source_fatal_witness:
  "init_target cfg0 ''app'' False ''server'' ''cc_binary'' [''a.cc'', ''b.cc'', ''a.cc''] [] None []
     world0 = Inl (DuplicateSourcePaths [''a.cc''])"
  using repeated_source_fatal [of "[''a.cc'', ''b.cc'', ''a.cc'']" "''server''" cfg0 "''app''" False
      "''cc_binary''" "[]" None world0]
  by simp

text \<open>
  Registering a system library is idempotent: after \<open>_add_system_library\<close> returned,
  the library is in the database and a second call changes nothing. A library that was
  absent is registered as a target of kind \<open>system_library\<close> in the directory \<open>#\<close>,
  without sources or dependencies and with public visibility.
\<close>

theorem system_library_registered_once:
  assumes "add_system_library cfg csp (''#'', n) (CHR ''#'' # n) w = Inr w1"
  shows "add_system_library cfg csp (''#'', n) (CHR ''#'' # n) w1 = Inr w1
       \<and> (\<exists>lib. target_database w1 (''#'', n) = Some lib)
       \<and> (target_database w (''#'', n) = None \<longrightarrow>
            (\<exists>lib. system_library cfg csp (CHR ''#'' # n) = Inr lib \<and> key lib = (''#'', n)
               \<and> type lib = ''system_library'' \<and> srcs lib = [] \<and> deps lib = []
               \<and> visibility lib = PUBLIC
               \<and> w1 = w\<lparr>target_database := (target_database w)((''#'', n) \<mapsto> lib)\<rparr>))"
  using assms
  by (auto simp: add_system_library_def system_library_def register_target_def fresh_target_def
        check_name_def Let_def split: option.splits sum.splits if_splits)

theorem system_library_registered_once_witness:
  "add_system_library cfg0 ''app'' (''#'', ''pthread'') ''#pthread'' world0
     = Inr (world0\<lparr>target_database := [(''#'', ''pthread'') \<mapsto> lib_pthread]\<rparr>)
   \<and> add_system_library cfg0 ''app'' (''#'', ''pthread'') ''#pthread''
       (world0\<lparr>target_database := [(''#'', ''pthread'') \<mapsto> lib_pthread]\<rparr>)
     = Inr (world0\<lparr>target_database := [(''#'', ''pthread'') \<mapsto> lib_pthread]\<rparr>)"
proof -
  have first: "add_system_library cfg0 ''app'' (''#'', ''pthread'') ''#pthread'' world0
     = Inr (world0\<lparr>target_database := [(''#'', ''pthread'') \<mapsto> lib_pthread]\<rparr>)"
    by (simp add: add_system_library_def system_library_def register_target_def fresh_target_def
        check_name_def cfg0_def world0_def lib_pthread_def Let_def)
  from system_library_registered_once [of cfg0 "''app''" "''pthread''" world0
      "world0\<lparr>target_database := [(''#'', ''pthread'') \<mapsto> lib_pthread]\<rparr>"] first
  show ?thesis by simp
qed

text \<open>
  The hash is memoized: once \<open>rule_hash\<close> has returned a digest for a target, every
  later call on the resulting database returns that digest and leaves the database as it
  is.
\<close>

lemma rule_hash_memoized_after:
  "rule_hash env n k db = Some (Inr (h, db')) \<Longrightarrow>
   \<exists>t. db' k = Some t \<and> rule_hash_memo t = Some h"
  by (cases n) (auto split: option.splits sum.splits prod.splits)

theorem rule_hash_memoized:
  assumes "rule_hash env n k db = Some (Inr (h, db'))"
  shows "rule_hash env (Suc m) k db' = Some (Inr (h, db'))"
  using rule_hash_memoized_after [OF assms] by auto

theorem rule_hash_memoized_witness:
  "\<exists>h db'. rule_hash sample_env (Suc (Suc 0)) (''app'', ''server'') db_two = Some (Inr (h, db'))
      \<and> rule_hash sample_env (Suc 0) (''app'', ''server'') db' = Some (Inr (h, db'))"
proof -
  have "case rule_hash sample_env (Suc (Suc 0)) (''app'', ''server'') db_two of
          Some (Inr _) \<Rightarrow> True | _ \<Rightarrow> False"
    by code_simp
  then obtain h db' where
    r: "rule_hash sample_env (Suc (Suc 0)) (''app'', ''server'') db_two = Some (Inr (h, db'))"
    by (auto split: option.splits sum.splits)
  from rule_hash_memoized [OF r, of 0] r show ?thesis by blast
qed

text \<open>
  The bound on the depth of the recursion does not influence a result: what
  \<open>rule_hash\<close> returns within some bound it returns within every larger one.
\<close>

lemma dep_rule_hashes_mono:
  assumes "\<And>d db r. h1 d db = Some r \<Longrightarrow> h2 d db = Some r"
  shows "dep_rule_hashes h1 ds acc db = Some r \<Longrightarrow> dep_rule_hashes h2 ds acc db = Some r"
proof (induction ds arbitrary: acc db)
  case Nil
  then show ?case by simp
next
  case (Cons d ds)
  from Cons.prems obtain x where x: "h1 d db = Some x"
    by (cases "h1 d db") auto
  then have y: "h2 d db = Some x" by (rule assms)
  show ?case
  proof (cases x)
    case (Inl e)
    with x y Cons.prems show ?thesis by simp
  next
    case (Inr p)
    obtain h db' where "p = (h, db')" by (cases p)
    with Inr x y Cons.prems Cons.IH [of "acc @ [h]" db'] show ?thesis by simp
  qed
qed

lemma rule_hash_Suc:
  "rule_hash env n k db = Some r \<Longrightarrow> rule_hash env (Suc n) k db = Some r"
proof (induction n arbitrary: k db r)
  case 0
  then show ?case by simp
next
  case (Suc n)
  show ?case
  proof (cases "db k")
    case None
    with Suc.prems show ?thesis by simp
  next
    case (Some t)
    show ?thesis
    proof (cases "rule_hash_memo t")
      case (Some h)
      with \<open>db k = Some t\<close> Suc.prems show ?thesis by simp
    next
      case None
      with \<open>db k = Some t\<close> Suc.prems obtain x where
        x: "dep_rule_hashes (rule_hash env n) (deps t) [] db = Some x"
        by (cases "dep_rule_hashes (rule_hash env n) (deps t) [] db") auto
      have "dep_rule_hashes (rule_hash env (Suc n)) (deps t) [] db = Some x"
        by (rule dep_rule_hashes_mono [OF _ x]) (rule Suc.IH)
      with x None \<open>db k = Some t\<close> Suc.prems show ?thesis by simp
    qed
  qed
qed

theorem rule_hash_more_fuel:
  assumes "rule_hash env n k db = Some r" and "n \<le> m"
  shows "rule_hash env m k db = Some r"
  using assms(2,1)
  by (induction rule: dec_induct) (simp_all add: rule_hash_Suc del: rule_hash.simps)

theorem rule_hash_more_fuel_witness:
  "map_option (map_sum id fst) (rule_hash sample_env 7 (''app'', ''server'') db_two)
     = map_option (map_sum id fst) (rule_hash sample_env (Suc (Suc 0)) (''app'', ''server'') db_two)
   \<and> rule_hash sample_env (Suc (Suc 0)) (''app'', ''server'') db_two \<noteq> None"
proof -
  have "case rule_hash sample_env (Suc (Suc 0)) (''app'', ''server'') db_two of
          Some _ \<Rightarrow> True | None \<Rightarrow> False"
    by code_simp
  then obtain r where
    r: "rule_hash sample_env (Suc (Suc 0)) (''app'', ''server'') db_two = Some r"
    by (auto split: option.splits)
  from rule_hash_more_fuel [OF r, of 7] r show ?thesis by simp
qed

end
